theory Spec2Isabelle
  imports Main "HOL-Library.Word" "HOL-Library.AList" "HOL-Library.Multiset"
begin

section \<open>The active-series tracker of pkg/ingester/activeseries\<close>

text \<open>
  A shallow embedding of \<^verbatim>\<open>active_series.go\<close>, executed sequentially: one call runs to
  its end before the next one starts, so the locks are no-ops, an atomic load reads the
  cell and a compare-and-swap on the value just loaded succeeds.

  \<^item> \<^verbatim>\<open>int64\<close> timestamps are \<open>int\<close>, with \<^verbatim>\<open>math.MaxInt64\<close> written out where the
    code uses it. The \<open>now\<close> of \<open>UpdateSeries\<close> and the \<open>keepUntil\<close> of \<open>purge\<close> are given
    by their \<^verbatim>\<open>UnixNano()\<close>, the only thing the code reads of them. The clock value of
    \<open>Active\<close> and \<open>ReloadMatchers\<close> and \<open>lastMatchersUpdate\<close> are \<^verbatim>\<open>time.Time\<close> values: the
    number of nanoseconds since the Unix epoch, not bounded by \<^verbatim>\<open>int64\<close>. \<open>Active\<close> does
    its arithmetic on them and then converts, with the wrap-around of \<^verbatim>\<open>int64\<close> written
    out.
  \<^item> \<^verbatim>\<open>labels.Labels\<close> is a list of (name, value) pairs and \<^verbatim>\<open>labels.Equal\<close> is
    equality; \<^verbatim>\<open>series.Hash()\<close> belongs to the Prometheus library and is a parameter
    \<open>hash\<close> of the model.
  \<^item> A Go map is an association list with the keys in some iteration order; a missing key
    reads as the nil chain. What is proved about \<open>purge\<close>, the one loop over a map (the
    chain left under each key, the counters, the hint), does not mention that order.
  \<^item> An index outside a slice's length panics: the operations return \<open>error + 'a\<close>.
\<close>

subsection \<open>Data model\<close>

datatype error = IndexOutOfRange

type_synonym Labels = "(string \<times> string) list"

type_synonym fingerprint = "64 word"

text \<open>
  Modelled from the spec: the type \<^verbatim>\<open>Matchers\<close> is declared in a file of the package that
  is not part of the sources at hand. The spec's contract is that it "exposes
  \<^verbatim>\<open>MatcherNames() -> ordered list\<close>, \<^verbatim>\<open>Matches(labels) -> bit-vector of same length\<close>":
  a matcher set is the ordered list of its named predicates.
\<close>

type_synonym Matchers = "(string \<times> (Labels \<Rightarrow> bool)) list"

definition MatcherNames :: "Matchers \<Rightarrow> string list" where
  "MatcherNames asm = map fst asm"

definition Matches :: "Matchers \<Rightarrow> Labels \<Rightarrow> bool list" where
  "Matches asm series = map (\<lambda>m. snd m series) asm"

text \<open>
  A slice of \<^verbatim>\<open>int\<close>: \<open>arr\<close> is the backing array from the slice's first cell up to its
  capacity, \<open>len\<close> the number of visible cells. Every stripe owns the only reference to the
  backing array of its \<^verbatim>\<open>activeMatching\<close>, so the array travels with the slice.
\<close>

record slice =
  arr :: "int list"
  len :: nat

definition cap :: "slice \<Rightarrow> nat" where
  "cap s = length (arr s)"

definition elems :: "slice \<Rightarrow> int list" where
  "elems s = take (len s) (arr s)"

definition nil_slice :: slice where
  "nil_slice = \<lparr>arr = [], len = 0\<rparr>"

definition makeSlice :: "nat \<Rightarrow> nat \<Rightarrow> slice" where
  "makeSlice l c = \<lparr>arr = replicate c 0, len = l\<rparr>"

record activeSeriesEntry =
  lbs :: Labels
  nanos :: int
  matches :: "bool list"

record activeSeriesStripe =
  smatchers :: Matchers
  oldestEntryTs :: int
  refs :: "(fingerprint \<times> activeSeriesEntry list) list"
  active :: int
  activeMatching :: slice

record ActiveSeries =
  stripes :: "activeSeriesStripe list"
  matchers :: Matchers
  lastMatchersUpdate :: int
  timeout :: int

definition numActiveSeriesStripes :: nat where
  "numActiveSeriesStripes = 512"

definition MaxInt64 :: int where
  "MaxInt64 = 9223372036854775807"

text \<open>The zero \<^verbatim>\<open>time.Time\<close> (1 January of year 1, UTC) in nanoseconds since the Unix epoch.\<close>

definition zeroTime :: int where
  "zeroTime = - 62135596800000000000"

definition MinInt64 :: int where
  "MinInt64 = - 9223372036854775808"

text \<open>The value an \<^verbatim>\<open>int64\<close> computation leaves for the exact result \<open>x\<close>: \<open>x\<close> modulo \<open>2^64\<close>,
  read as two's complement.\<close>

definition wrap64 :: "int \<Rightarrow> int" where
  "wrap64 x = (x + 9223372036854775808) mod 18446744073709551616 - 9223372036854775808"

text \<open>\<^verbatim>\<open>t.UnixNano()\<close>: \<^verbatim>\<open>sec * 1e9 + nsec\<close> computed in \<^verbatim>\<open>int64\<close>.\<close>

definition UnixNano :: "int \<Rightarrow> int" where
  "UnixNano t = wrap64 t"

text \<open>\<^verbatim>\<open>-d\<close> on a \<^verbatim>\<open>time.Duration\<close>, an \<^verbatim>\<open>int64\<close>.\<close>

definition negDuration :: "int \<Rightarrow> int" where
  "negDuration d = wrap64 (- d)"

subsection \<open>resizeAndClear\<close>

text \<open>
  The length \<open>l\<close> is a \<open>nat\<close>: every caller passes a \<^verbatim>\<open>len(...)\<close>. The loop
  \<^verbatim>\<open>for i := 0; i < l; i++ { p[i] = 0 }\<close> runs on the backing array.
\<close>

function clearLoop :: "nat \<Rightarrow> nat \<Rightarrow> int list \<Rightarrow> int list" where
  "clearLoop i l a = (if i < l then clearLoop (Suc i) l (a[i := 0]) else a)"
  by pat_completeness auto
termination
  by (relation "measure (\<lambda>(i, l, a). l - i)") auto

definition resizeAndClear :: "nat \<Rightarrow> slice \<Rightarrow> slice" where
  "resizeAndClear l prev =
     (if cap prev < l then
        (if l = 0 then nil_slice else makeSlice l (l * 2))
      else
        (let p = prev\<lparr>len := l\<rparr> in p\<lparr>arr := clearLoop 0 l (arr p)\<rparr>))"

subsection \<open>Stripe operations\<close>

text \<open>\<^verbatim>\<open>s.refs[fingerprint]\<close>: the chain stored under a key, nil when the key is absent.\<close>

definition chainOf :: "fingerprint \<Rightarrow> activeSeriesStripe \<Rightarrow> activeSeriesEntry list" where
  "chainOf fp s = (case map_of (refs s) fp of None \<Rightarrow> [] | Some es \<Rightarrow> es)"

text \<open>
  \<^verbatim>\<open>for i, ok := range matches { if ok { activeMatching[i]++ } }\<close>, from index \<open>i\<close> on.
\<close>

fun incMatching :: "nat \<Rightarrow> bool list \<Rightarrow> slice \<Rightarrow> error + slice" where
  "incMatching i [] am = Inr am"
| "incMatching i (ok # oks) am =
     (if ok then
        (if i < len am then incMatching (Suc i) oks (am\<lparr>arr := (arr am)[i := arr am ! i + 1]\<rparr>)
         else Inl IndexOutOfRange)
      else incMatching (Suc i) oks am)"

text \<open>\<^verbatim>\<open>for i, a := range s.activeMatching { matching[i] += a }\<close>, from index \<open>i\<close> on.\<close>

fun addMatching :: "nat \<Rightarrow> int list \<Rightarrow> slice \<Rightarrow> error + slice" where
  "addMatching i [] matching = Inr matching"
| "addMatching i (a # as) matching =
     (if i < len matching
      then addMatching (Suc i) as (matching\<lparr>arr := (arr matching)[i := arr matching ! i + a]\<rparr>)
      else Inl IndexOutOfRange)"

definition getTotalAndUpdateMatching ::
  "activeSeriesStripe \<Rightarrow> slice \<Rightarrow> error + (int \<times> slice)" where
  "getTotalAndUpdateMatching s matching =
     (case addMatching 0 (elems (activeMatching s)) matching of
        Inl e \<Rightarrow> Inl e
      | Inr m \<Rightarrow> Inr (active s, m))"

text \<open>
  The search of a chain for equal labels. The code returns the entry's \<^verbatim>\<open>*atomic.Int64\<close>;
  the model returns the entry's position in the chain, which names the same cell.
\<close>

fun findIn :: "Labels \<Rightarrow> activeSeriesEntry list \<Rightarrow> nat option" where
  "findIn series [] = None"
| "findIn series (entry # es) =
     (if lbs entry = series then Some 0 else map_option Suc (findIn series es))"

definition findEntryForSeries :: "fingerprint \<Rightarrow> Labels \<Rightarrow> activeSeriesStripe \<Rightarrow> nat option" where
  "findEntryForSeries fp series s = findIn series (chainOf fp s)"

definition findOrCreateEntryForSeries ::
  "fingerprint \<Rightarrow> Labels \<Rightarrow> int \<Rightarrow> (Labels \<Rightarrow> Labels) \<Rightarrow> activeSeriesStripe
     \<Rightarrow> error + (activeSeriesStripe \<times> nat \<times> bool)" where
  "findOrCreateEntryForSeries fp series nowNanos labelsCopy s =
     (case findIn series (chainOf fp s) of
        Some i \<Rightarrow> Inr (s, i, False)
      | None \<Rightarrow>
          (let ms = Matches (smatchers s) series in
           case incMatching 0 ms (activeMatching s) of
             Inl e \<Rightarrow> Inl e
           | Inr am \<Rightarrow>
               (let e = \<lparr>lbs = labelsCopy series, nanos = nowNanos, matches = ms\<rparr> in
                Inr (s\<lparr>refs := AList.update fp (chainOf fp s @ [e]) (refs s),
                       active := active s + 1,
                       activeMatching := am\<rparr>,
                     length (chainOf fp s), True))))"

text \<open>A store through the pointer found: the timestamp of entry \<open>i\<close> of the chain at \<open>fp\<close>.\<close>

definition storeNanos :: "fingerprint \<Rightarrow> nat \<Rightarrow> int \<Rightarrow> activeSeriesStripe \<Rightarrow> activeSeriesStripe" where
  "storeNanos fp i v s =
     s\<lparr>refs := AList.update fp ((chainOf fp s)[i := (chainOf fp s ! i)\<lparr>nanos := v\<rparr>]) (refs s)\<rparr>"

definition updateSeriesTimestamp ::
  "int \<Rightarrow> Labels \<Rightarrow> fingerprint \<Rightarrow> (Labels \<Rightarrow> Labels) \<Rightarrow> activeSeriesStripe
     \<Rightarrow> error + activeSeriesStripe" where
  "updateSeriesTimestamp now series fp labelsCopy s =
     (let nowNanos = now in
      case (case findEntryForSeries fp series s of
              Some i \<Rightarrow> Inr (s, i, False)
            | None \<Rightarrow> findOrCreateEntryForSeries fp series nowNanos labelsCopy s) of
        Inl e \<Rightarrow> Inl e
      | Inr (s1, i, entryTimeSet) \<Rightarrow>
          (let (s2, entryTimeSet2) =
                 (if \<not> entryTimeSet then
                    (let prev = nanos (chainOf fp s1 ! i) in
                     if nowNanos > prev then (storeNanos fp i nowNanos s1, True)
                     else (s1, entryTimeSet))
                  else (s1, entryTimeSet))
           in Inr (if entryTimeSet2 then
                     (if nowNanos < oldestEntryTs s2 then s2\<lparr>oldestEntryTs := 0\<rparr> else s2)
                   else s2)))"

definition clear :: "activeSeriesStripe \<Rightarrow> activeSeriesStripe" where
  "clear s =
     s\<lparr>oldestEntryTs := 0, refs := [], active := 0,
       activeMatching := (activeMatching s)\<lparr>arr := clearLoop 0 (len (activeMatching s)) (arr (activeMatching s))\<rparr>\<rparr>"

definition reinitialize :: "Matchers \<Rightarrow> activeSeriesStripe \<Rightarrow> activeSeriesStripe" where
  "reinitialize asm s =
     s\<lparr>oldestEntryTs := 0, refs := [], active := 0, smatchers := asm,
       activeMatching := resizeAndClear (length (MatcherNames asm)) (activeMatching s)\<rparr>"

text \<open>
  The in-place filter of a collision chain:
  \<^verbatim>\<open>for i := 0; i < len(entries); { ... entries = append(entries[:i], entries[i+1:]...) ... }\<close>.
\<close>

function filterLoop ::
  "int \<Rightarrow> nat \<Rightarrow> activeSeriesEntry list \<Rightarrow> int \<Rightarrow> activeSeriesEntry list \<times> int" where
  "filterLoop keepUntilNanos i entries oldest =
     (if i < length entries then
        (let ts = nanos (entries ! i) in
         if ts < keepUntilNanos
         then filterLoop keepUntilNanos i (take i entries @ drop (Suc i) entries) oldest
         else filterLoop keepUntilNanos (Suc i) entries (if ts < oldest then ts else oldest))
      else (entries, oldest))"
  by pat_completeness auto
termination
  by (relation "measure (\<lambda>(k, i, entries, oldest). length entries - i)") auto

text \<open>\<^verbatim>\<open>for i := range entries { for i, ok := range entries[i].matches { ... } }\<close>.\<close>

fun incEntries :: "activeSeriesEntry list \<Rightarrow> slice \<Rightarrow> error + slice" where
  "incEntries [] am = Inr am"
| "incEntries (e # es) am =
     (case incMatching 0 (matches e) am of
        Inl x \<Rightarrow> Inl x
      | Inr am' \<Rightarrow> incEntries es am')"

text \<open>
  The body of purge's loop over the map, for one key: the chain to store back (\<open>None\<close> when
  the key is deleted) and the accumulators \<open>active\<close>, \<open>activeMatching\<close>, \<open>oldest\<close>.
\<close>

definition purgeEntries ::
  "int \<Rightarrow> activeSeriesEntry list \<Rightarrow> int \<times> slice \<times> int
     \<Rightarrow> error + (activeSeriesEntry list option \<times> int \<times> slice \<times> int)" where
  "purgeEntries keepUntilNanos entries acc =
     (case acc of (act, actMatching, oldest) \<Rightarrow>
        if length entries = 1 then
          (let ts = nanos (entries ! 0) in
           if ts < keepUntilNanos then Inr (None, act, actMatching, oldest)
           else
             (case incMatching 0 (matches (entries ! 0)) actMatching of
                Inl e \<Rightarrow> Inl e
              | Inr am \<Rightarrow>
                  Inr (Some entries, act + 1, am, (if ts < oldest then ts else oldest))))
        else
          (case filterLoop keepUntilNanos 0 entries oldest of (entries', oldest') \<Rightarrow>
             let cnt = length entries' in
             if cnt = 0 then Inr (None, act, actMatching, oldest')
             else
               (case incEntries entries' actMatching of
                  Inl e \<Rightarrow> Inl e
                | Inr am \<Rightarrow> Inr (Some entries', act + int cnt, am, oldest'))))"

text \<open>\<^verbatim>\<open>for fp, entries := range s.refs { ... }\<close>: the keys in the list's order.\<close>

fun purgeLoop ::
  "int \<Rightarrow> (fingerprint \<times> activeSeriesEntry list) list \<Rightarrow> int \<times> slice \<times> int
     \<Rightarrow> error + ((fingerprint \<times> activeSeriesEntry list) list \<times> int \<times> slice \<times> int)" where
  "purgeLoop keepUntilNanos [] acc = Inr ([], acc)"
| "purgeLoop keepUntilNanos ((fp, entries) # rest) acc =
     (case purgeEntries keepUntilNanos entries acc of
        Inl e \<Rightarrow> Inl e
      | Inr (kept, acc') \<Rightarrow>
          (case purgeLoop keepUntilNanos rest acc' of
             Inl e \<Rightarrow> Inl e
           | Inr (rest', acc'') \<Rightarrow>
               Inr ((case kept of None \<Rightarrow> rest' | Some es \<Rightarrow> (fp, es) # rest'), acc'')))"

definition purge :: "int \<Rightarrow> activeSeriesStripe \<Rightarrow> error + activeSeriesStripe" where
  "purge keepUntil s =
     (let keepUntilNanos = keepUntil in
      if oldestEntryTs s > 0 \<and> keepUntilNanos \<le> oldestEntryTs s then Inr s
      else
        (case purgeLoop keepUntilNanos (refs s)
                (0, resizeAndClear (len (activeMatching s)) (activeMatching s), MaxInt64) of
           Inl e \<Rightarrow> Inl e
         | Inr (refs', active', activeMatching', oldest) \<Rightarrow>
             Inr (s\<lparr>oldestEntryTs := (if oldest = MaxInt64 then 0 else oldest),
                    refs := refs',
                    active := active',
                    activeMatching := activeMatching'\<rparr>)))"

subsection \<open>Tracker operations\<close>

definition NewActiveSeries :: "Matchers \<Rightarrow> int \<Rightarrow> ActiveSeries" where
  "NewActiveSeries asm idleTimeout =
     \<lparr>stripes =
        map (\<lambda>i. \<lparr>smatchers = asm, oldestEntryTs = 0, refs = [], active = 0,
                  activeMatching = resizeAndClear (length (MatcherNames asm)) nil_slice\<rparr>)
            [0 ..< numActiveSeriesStripes],
      matchers = asm,
      lastMatchersUpdate = zeroTime,
      timeout = idleTimeout\<rparr>"

text \<open>\<open>now\<close> is the value the tracker's clock \<^verbatim>\<open>c.now()\<close> returns in this call.\<close>

definition ReloadMatchers :: "Matchers \<Rightarrow> int \<Rightarrow> ActiveSeries \<Rightarrow> ActiveSeries" where
  "ReloadMatchers asm now c =
     c\<lparr>stripes := map (reinitialize asm) (stripes c),
       matchers := asm,
       lastMatchersUpdate := now\<rparr>"

definition stripeID :: "fingerprint \<Rightarrow> nat" where
  "stripeID fp = unat (fp mod 512)"

definition UpdateSeries ::
  "(Labels \<Rightarrow> fingerprint) \<Rightarrow> Labels \<Rightarrow> int \<Rightarrow> (Labels \<Rightarrow> Labels) \<Rightarrow> ActiveSeries
     \<Rightarrow> error + ActiveSeries" where
  "UpdateSeries hash series now labelsCopy c =
     (let fp = hash series in
      case updateSeriesTimestamp now series fp labelsCopy (stripes c ! stripeID fp) of
        Inl e \<Rightarrow> Inl e
      | Inr s' \<Rightarrow> Inr (c\<lparr>stripes := (stripes c)[stripeID fp := s']\<rparr>))"

fun purgeAll :: "int \<Rightarrow> activeSeriesStripe list \<Rightarrow> error + activeSeriesStripe list" where
  "purgeAll keepUntil [] = Inr []"
| "purgeAll keepUntil (s # ss) =
     (case purge keepUntil s of
        Inl e \<Rightarrow> Inl e
      | Inr s' \<Rightarrow>
          (case purgeAll keepUntil ss of
             Inl e \<Rightarrow> Inl e
           | Inr ss' \<Rightarrow> Inr (s' # ss')))"

text \<open>\<^verbatim>\<open>for s := 0; s < 512; s++ { total += c.stripes[s].getTotalAndUpdateMatching(totalMatching) }\<close>.\<close>

fun totalLoop :: "activeSeriesStripe list \<Rightarrow> int \<Rightarrow> slice \<Rightarrow> error + (int \<times> slice)" where
  "totalLoop [] tot totalMatching = Inr (tot, totalMatching)"
| "totalLoop (s # ss) tot totalMatching =
     (case getTotalAndUpdateMatching s totalMatching of
        Inl e \<Rightarrow> Inl e
      | Inr (a, m) \<Rightarrow> totalLoop ss (tot + a) m)"

text \<open>
  \<open>Active\<close> returns the tracker after its purge together with the three results of the
  code: the total, the per-matcher slice and the valid flag. \<open>purgeTime\<close> is
  \<^verbatim>\<open>c.now().Add(-c.timeout)\<close>; every stripe's purge reads \<^verbatim>\<open>keepUntil.UnixNano()\<close> of it,
  and the flag is \<^verbatim>\<open>purgeTime.After(c.lastMatchersUpdate)\<close>, a comparison of times.
\<close>

definition Active :: "int \<Rightarrow> ActiveSeries \<Rightarrow> error + (ActiveSeries \<times> int \<times> slice \<times> bool)" where
  "Active now c =
     (let purgeTime = now + negDuration (timeout c) in
      case purgeAll (UnixNano purgeTime) (stripes c) of
        Inl e \<Rightarrow> Inl e
      | Inr ss \<Rightarrow>
          (case totalLoop ss 0 (resizeAndClear (length (MatcherNames (matchers c))) nil_slice) of
             Inl e \<Rightarrow> Inl e
           | Inr (tot, totalMatching) \<Rightarrow>
               Inr (c\<lparr>stripes := ss\<rparr>, tot, totalMatching, purgeTime > lastMatchersUpdate c)))"

subsection \<open>Invariants and the vocabulary of the claims\<close>

text \<open>All entries of a stripe, chain after chain.\<close>

definition allEntries :: "activeSeriesStripe \<Rightarrow> activeSeriesEntry list" where
  "allEntries s = concat (map snd (refs s))"

text \<open>The number of entries whose \<open>matches[i]\<close> is true.\<close>

definition countMatching :: "nat \<Rightarrow> activeSeriesEntry list \<Rightarrow> int" where
  "countMatching i es = int (length (filter (\<lambda>e. i < length (matches e) \<and> matches e ! i) es))"

text \<open>(I1) \<open>active\<close> is the sum of the chain lengths over all keys.\<close>

definition I1 :: "activeSeriesStripe \<Rightarrow> bool" where
  "I1 s \<longleftrightarrow> active s = (\<Sum>es \<leftarrow> map snd (refs s). int (length es))"

text \<open>(I2) \<open>activeMatching[i]\<close> is the number of entries whose \<open>matches[i]\<close> is true.\<close>

definition I2 :: "activeSeriesStripe \<Rightarrow> bool" where
  "I2 s \<longleftrightarrow>
     (\<forall>i < len (activeMatching s). elems (activeMatching s) ! i = countMatching i (allEntries s))"

text \<open>(I3) \<open>oldestEntryTs\<close> is 0 or a lower bound of every timestamp in the stripe.\<close>

definition I3 :: "activeSeriesStripe \<Rightarrow> bool" where
  "I3 s \<longleftrightarrow> oldestEntryTs s = 0 \<or> (\<forall>e \<in> set (allEntries s). oldestEntryTs s \<le> nanos e)"

text \<open>(I4) Every key maps to a non-empty chain.\<close>

definition I4 :: "activeSeriesStripe \<Rightarrow> bool" where
  "I4 s \<longleftrightarrow> [] \<notin> snd ` set (refs s)"

text \<open>
  What the types of the code and (I6) give: a slice's length is within its capacity, the
  keys of a map are distinct, \<open>activeMatching\<close> has one cell per matcher of the stripe and
  every entry has one \<open>matches\<close> bit per cell.
\<close>

definition stripe_wf :: "activeSeriesStripe \<Rightarrow> bool" where
  "stripe_wf s \<longleftrightarrow>
     len (activeMatching s) \<le> cap (activeMatching s) \<and>
     distinct (map fst (refs s)) \<and>
     len (activeMatching s) = length (MatcherNames (smatchers s)) \<and>
     (\<forall>e \<in> set (allEntries s). length (matches e) = len (activeMatching s))"

text \<open>The tracker has its 512 stripes, each well-formed and holding the tracker's matchers.\<close>

definition tracker_wf :: "ActiveSeries \<Rightarrow> bool" where
  "tracker_wf c \<longleftrightarrow>
     length (stripes c) = numActiveSeriesStripes \<and>
     (\<forall>s \<in> set (stripes c). stripe_wf s \<and> smatchers s = matchers c)"

text \<open>The entries a purge with cutoff \<open>k\<close> keeps: those with \<open>k \<le> nanos\<close>.\<close>

definition survivors :: "int \<Rightarrow> activeSeriesEntry list \<Rightarrow> activeSeriesEntry list" where
  "survivors k es = filter (\<lambda>e. k \<le> nanos e) es"

text \<open>
  The map a purge with cutoff \<open>k\<close> must leave: every chain reduced to its survivors, and a
  key kept exactly when its reduced chain is not empty.
\<close>

definition purgedRefs ::
  "int \<Rightarrow> (fingerprint \<times> activeSeriesEntry list) list \<Rightarrow> (fingerprint \<times> activeSeriesEntry list) list" where
  "purgedRefs k rs = filter (\<lambda>(fp, es). es \<noteq> []) (map (\<lambda>(fp, es). (fp, survivors k es)) rs)"

text \<open>The running minimum \<^verbatim>\<open>if ts < oldest { oldest = ts }\<close> over a list of entries.\<close>

fun lowest :: "int \<Rightarrow> activeSeriesEntry list \<Rightarrow> int" where
  "lowest oldest [] = oldest"
| "lowest oldest (e # es) = lowest (if nanos e < oldest then nanos e else oldest) es"

text \<open>A property of stripes that holds in every stripe of a tracker.\<close>

definition allStripes :: "(activeSeriesStripe \<Rightarrow> bool) \<Rightarrow> ActiveSeries \<Rightarrow> bool" where
  "allStripes P c \<longleftrightarrow> (\<forall>s \<in> set (stripes c). P s)"

text \<open>
  The states a tracker goes through: made by \<open>NewActiveSeries\<close>, then changed by calls of
  \<open>UpdateSeries\<close>, \<open>Active\<close> and \<open>ReloadMatchers\<close> that return, in any order and with any
  arguments.
\<close>

inductive reachable :: "(Labels \<Rightarrow> fingerprint) \<Rightarrow> ActiveSeries \<Rightarrow> bool"
  for hash :: "Labels \<Rightarrow> fingerprint" where
  new: "reachable hash (NewActiveSeries asm idleTimeout)"
| update: "reachable hash c \<Longrightarrow> UpdateSeries hash series now labelsCopy c = Inr c' \<Longrightarrow>
    reachable hash c'"
| active: "reachable hash c \<Longrightarrow> Active now c = Inr (c', tot, totalMatching, valid) \<Longrightarrow>
    reachable hash c'"
| reload: "reachable hash c \<Longrightarrow> reachable hash (ReloadMatchers asm now c)"

text \<open>
  The stored timestamp of a series: the value of the cell that \<open>findEntryForSeries\<close> finds
  for it in its stripe, if it finds one.
\<close>

definition storedNanos :: "(Labels \<Rightarrow> fingerprint) \<Rightarrow> ActiveSeries \<Rightarrow> Labels \<Rightarrow> int option" where
  "storedNanos hash c series =
     (let fp = hash series; s = stripes c ! stripeID fp in
      map_option (\<lambda>i. nanos (chainOf fp s ! i)) (findEntryForSeries fp series s))"

text \<open>The same within one stripe.\<close>

definition stripeNanos :: "fingerprint \<Rightarrow> Labels \<Rightarrow> activeSeriesStripe \<Rightarrow> int option" where
  "stripeNanos fp series s =
     map_option (\<lambda>i. nanos (chainOf fp s ! i)) (findIn series (chainOf fp s))"

text \<open>The \<open>oldestEntryTs\<close> of the stripe a series belongs to.\<close>

definition oldestOf :: "(Labels \<Rightarrow> fingerprint) \<Rightarrow> ActiveSeries \<Rightarrow> Labels \<Rightarrow> int" where
  "oldestOf hash c series = oldestEntryTs (stripes c ! stripeID (hash series))"

text \<open>
  The series a stripe holds: one entry per label set of \<open>L\<close>, stored under the label set's
  fingerprint, with the matcher bits of its labels and a timestamp from \<open>tmin\<close> on.
\<close>

definition seriesIn ::
  "(Labels \<Rightarrow> fingerprint) \<Rightarrow> Matchers \<Rightarrow> int \<Rightarrow> Labels set \<Rightarrow> activeSeriesStripe \<Rightarrow> bool" where
  "seriesIn hash asm tmin L s \<longleftrightarrow>
     finite L \<and>
     image_mset lbs (mset (allEntries s)) = mset_set L \<and>
     (\<forall>(fp, es) \<in> set (refs s). \<forall>e \<in> set es. hash (lbs e) = fp) \<and>
     (\<forall>e \<in> set (allEntries s). matches e = Matches asm (lbs e) \<and> tmin \<le> nanos e)"

text \<open>The series a tracker holds, each in the stripe of its fingerprint.\<close>

definition trackerSeries ::
  "(Labels \<Rightarrow> fingerprint) \<Rightarrow> Matchers \<Rightarrow> int \<Rightarrow> Labels set \<Rightarrow> ActiveSeries \<Rightarrow> bool" where
  "trackerSeries hash asm tmin L c \<longleftrightarrow>
     matchers c = asm \<and>
     (\<forall>k < numActiveSeriesStripes.
        seriesIn hash asm tmin {l \<in> L. stripeID (hash l) = k} (stripes c ! k))"

text \<open>A sequence of \<open>UpdateSeries\<close> calls, each with its labels and its timestamp.\<close>

fun runUpdates ::
  "(Labels \<Rightarrow> fingerprint) \<Rightarrow> (Labels \<Rightarrow> Labels) \<Rightarrow> (Labels \<times> int) list \<Rightarrow> ActiveSeries
     \<Rightarrow> error + ActiveSeries" where
  "runUpdates hash labelsCopy [] c = Inr c"
| "runUpdates hash labelsCopy ((series, now) # calls) c =
     (case UpdateSeries hash series now labelsCopy c of
        Inl e \<Rightarrow> Inl e
      | Inr c' \<Rightarrow> runUpdates hash labelsCopy calls c')"

text \<open>
  The cutoff the stripes' purges of one \<open>Active\<close> call compare timestamps with, for the
  clock value \<open>now\<close> and the idle timeout of the tracker.
\<close>

definition cutoffNanos :: "int \<Rightarrow> int \<Rightarrow> int" where
  "cutoffNanos now idleTimeout = UnixNano (now + negDuration idleTimeout)"

text \<open>
  \<open>Active\<close> at the clock value \<open>now\<close>, after a sequence of \<open>UpdateSeries\<close> calls on a new
  tracker, and the total it returns.
\<close>

definition activeAfter ::
  "(Labels \<Rightarrow> fingerprint) \<Rightarrow> (Labels \<Rightarrow> Labels) \<Rightarrow> (Labels \<times> int) list \<Rightarrow> Matchers \<Rightarrow> int \<Rightarrow> int
     \<Rightarrow> error + (ActiveSeries \<times> int \<times> slice \<times> bool)" where
  "activeAfter hash labelsCopy calls asm idleTimeout now =
     (case runUpdates hash labelsCopy calls (NewActiveSeries asm idleTimeout) of
        Inl e \<Rightarrow> Inl e
      | Inr c \<Rightarrow> Active now c)"

definition totalOf :: "error + (ActiveSeries \<times> int \<times> slice \<times> bool) \<Rightarrow> error + int" where
  "totalOf r = (case r of Inl e \<Rightarrow> Inl e | Inr (c, tot, totalMatching, valid) \<Rightarrow> Inr tot)"

text \<open>Purge takes its slow path when the shortcut test on \<open>oldestEntryTs\<close> fails.\<close>

definition slowPath :: "int \<Rightarrow> activeSeriesStripe \<Rightarrow> bool" where
  "slowPath k s \<longleftrightarrow> \<not> (oldestEntryTs s > 0 \<and> k \<le> oldestEntryTs s)"

subsection \<open>Example states\<close>

definition exMatchers :: Matchers where
  "exMatchers = [(''a'', \<lambda>l. l = [(''job'', ''a'')])]"

definition exEntry :: "string \<Rightarrow> int \<Rightarrow> activeSeriesEntry" where
  "exEntry v t = \<lparr>lbs = [(''job'', v)], nanos = t, matches = [v = ''a'']\<rparr>"

text \<open>A stripe with a single-entry chain to keep, a collision chain and a single-entry chain to drop.\<close>

definition exStripe :: activeSeriesStripe where
  "exStripe =
     \<lparr>smatchers = exMatchers, oldestEntryTs = 0,
      refs = [(1, [exEntry ''a'' 100]),
              (2, [exEntry ''b'' 50, exEntry ''c'' 100, exEntry ''d'' 99]),
              (3, [exEntry ''e'' 99])],
      active = 5,
      activeMatching = \<lparr>arr = [1, 0], len = 1\<rparr>\<rparr>"

text \<open>The same stripe after a purge has set the hint to its oldest timestamp.\<close>

definition exStripeHint :: activeSeriesStripe where
  "exStripeHint = exStripe\<lparr>oldestEntryTs := 50\<rparr>"

text \<open>A stripe whose only entry carries the largest \<^verbatim>\<open>int64\<close> timestamp.\<close>

definition maxStripe :: activeSeriesStripe where
  "maxStripe =
     \<lparr>smatchers = [], oldestEntryTs = 0,
      refs = [(1, [\<lparr>lbs = [], nanos = MaxInt64, matches = []\<rparr>])],
      active = 1,
      activeMatching = nil_slice\<rparr>"

text \<open>A hash with collisions: label sets of the same length share a fingerprint.\<close>

definition exHash :: "Labels \<Rightarrow> fingerprint" where
  "exHash l = word_of_nat (length l)"

definition exMatchers2 :: Matchers where
  "exMatchers2 = [(''b'', \<lambda>l. l = [(''job'', ''b'')]), (''all'', \<lambda>l. True)]"

definition exTracker :: ActiveSeries where
  "exTracker =
     \<lparr>stripes = replicate 512 exStripe, matchers = exMatchers, lastMatchersUpdate = 0,
      timeout = 10\<rparr>"

section \<open>Properties\<close>

declare clearLoop.simps [simp del]
declare filterLoop.simps [simp del]

subsection \<open>The counter buffer\<close>

lemma clearLoop_length [simp]: "length (clearLoop i l a) = length a"
  by (induction i l a rule: clearLoop.induct) (subst clearLoop.simps, simp)

lemma clearLoop_nth:
  "j < length a \<Longrightarrow> clearLoop i l a ! j = (if i \<le> j \<and> j < l then 0 else a ! j)"
proof (induction i l a rule: clearLoop.induct)
  case (1 i l a)
  show ?case
  proof (cases "i < l")
    case True
    then have "clearLoop i l a ! j = clearLoop (Suc i) l (a[i := 0]) ! j"
      by (subst clearLoop.simps) simp
    also have "\<dots> = (if Suc i \<le> j \<and> j < l then 0 else a[i := 0] ! j)"
      using 1 True by simp
    finally show ?thesis using 1(2) True by (auto simp: nth_list_update)
  next
    case False
    then show ?thesis by (subst clearLoop.simps) simp
  qed
qed

lemma clearLoop_eq:
  "l \<le> length a \<Longrightarrow> clearLoop 0 l a = replicate l 0 @ drop l a"
  by (rule nth_equalityI) (auto simp: clearLoop_nth nth_append)

lemma resizeAndClear_len [simp]: "len (resizeAndClear l prev) = l"
  by (simp add: resizeAndClear_def nil_slice_def makeSlice_def)

lemma resizeAndClear_elems [simp]: "elems (resizeAndClear l prev) = replicate l 0"
  by (simp add: resizeAndClear_def nil_slice_def makeSlice_def elems_def cap_def clearLoop_eq)

lemma resizeAndClear_bound [simp]: "l \<le> length (arr (resizeAndClear l prev))"
  by (simp add: resizeAndClear_def nil_slice_def makeSlice_def cap_def)

text \<open>
  Claim C9. For every length \<open>l\<close> and every previous slice \<open>prev\<close>, \<open>resizeAndClear l prev\<close>
  has length \<open>l\<close> and only zeros in it. When the capacity of \<open>prev\<close> is at least \<open>l\<close> the
  result is \<open>prev\<close>'s own backing array, of the same capacity, with its first \<open>l\<close> cells
  zeroed and the cells behind them untouched; otherwise it is a new array of \<open>2 * l\<close> zeros.
  For \<open>l = 0\<close> the result is empty.
\<close>

theorem resizeAndClear_spec:
  "len (resizeAndClear l prev) = l \<and>
   elems (resizeAndClear l prev) = replicate l 0 \<and>
   (l \<le> cap prev \<longrightarrow>
      arr (resizeAndClear l prev) = replicate l 0 @ drop l (arr prev) \<and>
      cap (resizeAndClear l prev) = cap prev) \<and>
   (cap prev < l \<longrightarrow>
      arr (resizeAndClear l prev) = replicate (2 * l) 0 \<and>
      cap (resizeAndClear l prev) = 2 * l) \<and>
   (l = 0 \<longrightarrow> elems (resizeAndClear l prev) = [])"
proof -
  have "l \<le> cap prev \<Longrightarrow> arr (resizeAndClear l prev) = replicate l 0 @ drop l (arr prev)"
    by (simp add: resizeAndClear_def cap_def clearLoop_eq)
  moreover have "l \<le> cap prev \<Longrightarrow> cap (resizeAndClear l prev) = cap prev"
    by (simp add: resizeAndClear_def cap_def)
  moreover have "cap prev < l \<Longrightarrow> arr (resizeAndClear l prev) = replicate (2 * l) 0"
    by (simp add: resizeAndClear_def makeSlice_def mult.commute)
  moreover have "cap prev < l \<Longrightarrow> cap (resizeAndClear l prev) = 2 * l"
    by (simp add: resizeAndClear_def makeSlice_def cap_def)
  ultimately show ?thesis by simp
qed

theorem resizeAndClear_spec_witness:
  "resizeAndClear 2 \<lparr>arr = [5, 6, 7], len = 3\<rparr> = \<lparr>arr = [0, 0, 7], len = 2\<rparr> \<and>
   resizeAndClear 2 \<lparr>arr = [5], len = 1\<rparr> = \<lparr>arr = [0, 0, 0, 0], len = 2\<rparr> \<and>
   elems (resizeAndClear 0 \<lparr>arr = [5], len = 1\<rparr>) = [] \<and>
   elems (resizeAndClear 0 nil_slice) = []"
  using resizeAndClear_spec [of 2 "\<lparr>arr = [5, 6, 7], len = 3\<rparr>"]
    resizeAndClear_spec [of 2 "\<lparr>arr = [5], len = 1\<rparr>"]
    resizeAndClear_spec [of 0 "\<lparr>arr = [5], len = 1\<rparr>"]
    resizeAndClear_spec [of 0 nil_slice]
  by (simp add: cap_def nil_slice_def eval_nat_numeral slice.equality)

subsection \<open>Slices\<close>

lemma incMatching_shape:
  "incMatching i ms am = Inr am' \<Longrightarrow> len am' = len am \<and> length (arr am') = length (arr am)"
  by (induction i ms am rule: incMatching.induct) (auto split: if_splits)

lemma incMatching_nth:
  "incMatching i ms am = Inr am' \<Longrightarrow> j < length (arr am) \<Longrightarrow>
   arr am' ! j = arr am ! j + (if i \<le> j \<and> j - i < length ms \<and> ms ! (j - i) then 1 else 0)"
proof (induction i ms am arbitrary: am' rule: incMatching.induct)
  case (1 i am)
  then show ?case by simp
next
  case (2 i ok oks am)
  show ?case
  proof (cases ok)
    case True
    with 2(3) have lt: "i < len am"
      and rec: "incMatching (Suc i) oks (am\<lparr>arr := (arr am)[i := arr am ! i + 1]\<rparr>) = Inr am'"
      by (auto split: if_splits)
    from 2(1) [OF True lt rec] 2(4)
    have "arr am' ! j = (arr am)[i := arr am ! i + 1] ! j +
        (if Suc i \<le> j \<and> j - Suc i < length oks \<and> oks ! (j - Suc i) then 1 else 0)"
      by simp
    then show ?thesis using True 2(4)
      by (cases "j = i") (auto simp: nth_list_update nth_Cons' Suc_diff_Suc less_Suc_eq_le)
  next
    case False
    with 2(3) have rec: "incMatching (Suc i) oks am = Inr am'" by simp
    from 2(2) [OF False rec 2(4)] False show ?thesis
      by (auto simp: nth_Cons' Suc_diff_Suc less_Suc_eq_le)
  qed
qed

lemma incMatching_ok:
  "i + length ms \<le> len am \<Longrightarrow> \<exists>am'. incMatching i ms am = Inr am'"
  by (induction i ms am rule: incMatching.induct) auto


lemma incMatching_elems:
  assumes "incMatching 0 ms am = Inr am'" "len am \<le> cap am" "j < len am"
  shows "elems am' ! j = elems am ! j + (if j < length ms \<and> ms ! j then 1 else 0)"
  using incMatching_nth [OF assms(1), of j] incMatching_shape [OF assms(1)] assms(2,3)
  by (simp add: elems_def cap_def)

lemma incEntries_shape:
  "incEntries es am = Inr am' \<Longrightarrow> len am' = len am \<and> cap am' = cap am"
  by (induction es arbitrary: am)
     (auto simp: cap_def split: sum.splits dest: incMatching_shape)

lemma countMatching_simps [simp]:
  "countMatching j [] = 0"
  "countMatching j (e # es) = (if j < length (matches e) \<and> matches e ! j then 1 else 0) + countMatching j es"
  "countMatching j (xs @ ys) = countMatching j xs + countMatching j ys"
  by (simp_all add: countMatching_def)

lemma incEntries_elems:
  "incEntries es am = Inr am' \<Longrightarrow> len am \<le> cap am \<Longrightarrow> j < len am \<Longrightarrow>
   elems am' ! j = elems am ! j + countMatching j es"
proof (induction es arbitrary: am)
  case Nil
  then show ?case by simp
next
  case (Cons e es)
  from Cons.prems(1) obtain am1 where
    h: "incMatching 0 (matches e) am = Inr am1" and t: "incEntries es am1 = Inr am'"
    by (auto split: sum.splits)
  from incMatching_shape [OF h] Cons.prems have "len am1 \<le> cap am1" "j < len am1"
    by (simp_all add: cap_def)
  from Cons.IH [OF t this] incMatching_elems [OF h Cons.prems(2,3)]
  show ?case by simp
qed

lemma incEntries_ok:
  "\<forall>e \<in> set es. length (matches e) \<le> len am \<Longrightarrow> \<exists>am'. incEntries es am = Inr am'"
proof (induction es arbitrary: am)
  case Nil
  then show ?case by simp
next
  case (Cons e es)
  then obtain am1 where h: "incMatching 0 (matches e) am = Inr am1"
    using incMatching_ok [of 0 "matches e" am] by auto
  with Cons.prems incMatching_shape [OF h] Cons.IH [of am1] show ?case by auto
qed

lemma incEntries_append:
  "incEntries (xs @ ys) am =
     (case incEntries xs am of Inl e \<Rightarrow> Inl e | Inr am' \<Rightarrow> incEntries ys am')"
  by (induction xs arbitrary: am) (auto split: sum.splits)

lemma addMatching_shape:
  "addMatching i as m = Inr m' \<Longrightarrow> len m' = len m \<and> length (arr m') = length (arr m)"
  by (induction i as m rule: addMatching.induct) (auto split: if_splits)

lemma addMatching_nth:
  "addMatching i as m = Inr m' \<Longrightarrow> j < length (arr m) \<Longrightarrow>
   arr m' ! j = arr m ! j + (if i \<le> j \<and> j - i < length as then as ! (j - i) else 0)"
proof (induction i as m arbitrary: m' rule: addMatching.induct)
  case (1 i m)
  then show ?case by simp
next
  case (2 i a as m)
  from 2(2) have lt: "i < len m"
    and rec: "addMatching (Suc i) as (m\<lparr>arr := (arr m)[i := arr m ! i + a]\<rparr>) = Inr m'"
    by (auto split: if_splits)
  from 2(1) [OF lt rec] 2(3)
  have "arr m' ! j = (arr m)[i := arr m ! i + a] ! j +
      (if Suc i \<le> j \<and> j - Suc i < length as then as ! (j - Suc i) else 0)"
    by simp
  then show ?case using 2(3)
    by (cases "j = i") (auto simp: nth_list_update nth_Cons' Suc_diff_Suc less_Suc_eq_le)
qed

lemma addMatching_ok:
  "i + length as \<le> len m \<Longrightarrow> \<exists>m'. addMatching i as m = Inr m'"
  by (induction i as m rule: addMatching.induct) auto


subsection \<open>Purge\<close>

lemma lowest_append [simp]: "lowest x (xs @ ys) = lowest (lowest x xs) ys"
  by (induction xs arbitrary: x) auto

lemma lowest_le: "lowest x es \<le> x"
proof (induction es arbitrary: x)
  case Nil
  show ?case by simp
next
  case (Cons e es)
  have "lowest (if nanos e < x then nanos e else x) es \<le> (if nanos e < x then nanos e else x)"
    by (rule Cons.IH)
  then show ?case by (simp split: if_splits)
qed

lemma lowest_lower: "e \<in> set es \<Longrightarrow> lowest x es \<le> nanos e"
proof (induction es arbitrary: x)
  case Nil
  then show ?case by simp
next
  case (Cons a es)
  show ?case
  proof (cases "e = a")
    case True
    have "lowest (if nanos a < x then nanos a else x) es \<le> (if nanos a < x then nanos a else x)"
      by (rule lowest_le)
    with True show ?thesis by (simp split: if_splits)
  next
    case False
    with Cons show ?thesis by simp
  qed
qed

lemma lowest_attained: "lowest x es = x \<or> lowest x es \<in> nanos ` set es"
proof (induction es arbitrary: x)
  case Nil
  show ?case by simp
next
  case (Cons a es)
  from Cons.IH [of "if nanos a < x then nanos a else x"] show ?case
    by (auto split: if_splits)
qed

lemma filterLoop_eq:
  "filterLoop k i es x = (take i es @ survivors k (drop i es), lowest x (survivors k (drop i es)))"
proof (induction k i es x rule: filterLoop.induct)
  case (1 k i es x)
  show ?case
  proof (cases "i < length es")
    case False
    then show ?thesis by (subst filterLoop.simps) (simp add: survivors_def)
  next
    case True
    note lt = this
    then have d: "drop i es = es ! i # drop (Suc i) es"
      by (simp add: Cons_nth_drop_Suc)
    show ?thesis
    proof (cases "nanos (es ! i) < k")
      case True
      have "filterLoop k i es x = filterLoop k i (take i es @ drop (Suc i) es) x"
        using lt True by (subst filterLoop.simps) simp
      also have "\<dots> = (take i (take i es @ drop (Suc i) es) @
            survivors k (drop i (take i es @ drop (Suc i) es)),
          lowest x (survivors k (drop i (take i es @ drop (Suc i) es))))"
        using 1(1) [OF lt refl True] .
      finally show ?thesis using lt True d by (simp add: survivors_def min_def)
    next
      case False
      have "filterLoop k i es x =
          filterLoop k (Suc i) es (if nanos (es ! i) < x then nanos (es ! i) else x)"
        using lt False by (subst filterLoop.simps) simp
      also have "\<dots> = (take (Suc i) es @ survivors k (drop (Suc i) es),
          lowest (if nanos (es ! i) < x then nanos (es ! i) else x) (survivors k (drop (Suc i) es)))"
        using 1(2) [OF lt refl False] .
      finally show ?thesis using lt False d by (simp add: survivors_def take_Suc_conv_app_nth)
    qed
  qed
qed

text \<open>The loop body, for one chain, in closed form.\<close>

lemma purgeEntries_eq:
  "purgeEntries k es (a, am, x) =
     (case incEntries (survivors k es) am of
        Inl e \<Rightarrow> Inl e
      | Inr am' \<Rightarrow>
          Inr (if survivors k es = [] then None else Some (survivors k es),
               a + int (length (survivors k es)), am', lowest x (survivors k es)))"
proof (cases "length es = 1")
  case True
  then obtain e where es: "es = [e]" by (cases es) auto
  show ?thesis
    by (simp add: purgeEntries_def es survivors_def split: sum.splits)
next
  case False
  then show ?thesis
    by (simp add: purgeEntries_def filterLoop_eq Let_def split: sum.splits)
qed


lemma concat_purgedRefs: "concat (map snd (purgedRefs k rs)) = survivors k (concat (map snd rs))"
  by (induction rs) (auto simp: purgedRefs_def survivors_def)

lemma purgedRefs_Cons:
  "purgedRefs k ((fp, es) # rs) =
     (if survivors k es = [] then purgedRefs k rs else (fp, survivors k es) # purgedRefs k rs)"
  by (simp add: purgedRefs_def)

lemma survivors_append [simp]: "survivors k (xs @ ys) = survivors k xs @ survivors k ys"
  by (simp add: survivors_def)

lemma purgeLoop_eq:
  "purgeLoop k rs (a, am, x) =
     (case incEntries (survivors k (concat (map snd rs))) am of
        Inl e \<Rightarrow> Inl e
      | Inr am' \<Rightarrow>
          Inr (purgedRefs k rs, a + int (length (survivors k (concat (map snd rs)))), am',
               lowest x (survivors k (concat (map snd rs)))))"
proof (induction rs arbitrary: a am x)
  case Nil
  show ?case by (simp add: purgedRefs_def survivors_def)
next
  case (Cons r rs)
  obtain fp es where r: "r = (fp, es)" by (cases r)
  show ?case
  proof (cases "incEntries (survivors k es) am")
    case (Inl e)
    then show ?thesis by (simp add: r purgeEntries_eq incEntries_append)
  next
    case (Inr am1)
    then show ?thesis
      by (simp add: r purgeEntries_eq incEntries_append Cons.IH purgedRefs_Cons
          split: sum.splits)
  qed
qed

lemma purge_fast: "\<not> slowPath k s \<Longrightarrow> purge k s = Inr s"
  by (simp add: purge_def slowPath_def)

lemma purge_slow:
  "slowPath k s \<Longrightarrow>
   purge k s =
     (case incEntries (survivors k (allEntries s))
             (resizeAndClear (len (activeMatching s)) (activeMatching s)) of
        Inl e \<Rightarrow> Inl e
      | Inr am' \<Rightarrow>
          Inr (s\<lparr>oldestEntryTs :=
                  (if lowest MaxInt64 (survivors k (allEntries s)) = MaxInt64 then 0
                   else lowest MaxInt64 (survivors k (allEntries s))),
                 refs := purgedRefs k (refs s),
                 active := int (length (survivors k (allEntries s))),
                 activeMatching := am'\<rparr>))"
  by (auto simp: purge_def slowPath_def purgeLoop_eq allEntries_def split: sum.splits)


lemma allEntries_purgedRefs:
  "concat (map snd (purgedRefs k (refs s))) = survivors k (allEntries s)"
  by (simp add: concat_purgedRefs allEntries_def)

lemma distinct_purgedRefs: "distinct (map fst rs) \<Longrightarrow> distinct (map fst (purgedRefs k rs))"
proof -
  have "map fst (purgedRefs k rs) = map fst (filter (\<lambda>(fp, es). survivors k es \<noteq> []) rs)"
    by (induction rs) (auto simp: purgedRefs_def)
  moreover assume "distinct (map fst rs)"
  ultimately show ?thesis by (simp add: distinct_map_filter)
qed

lemma keys_purgedRefs: "fst ` set (purgedRefs k rs) \<subseteq> fst ` set rs"
  by (induction rs) (auto simp: purgedRefs_def)

lemma map_of_purgedRefs:
  "distinct (map fst rs) \<Longrightarrow>
   map_of (purgedRefs k rs) fp =
     (case map_of rs fp of
        None \<Rightarrow> None
      | Some es \<Rightarrow> if survivors k es = [] then None else Some (survivors k es))"
proof (induction rs)
  case Nil
  show ?case by (simp add: purgedRefs_def)
next
  case (Cons r rs)
  obtain fp' es where r: "r = (fp', es)" by (cases r)
  from Cons.prems have nin: "fp' \<notin> fst ` set (purgedRefs k rs)"
    using keys_purgedRefs [of k rs] by (auto simp: r)
  then have "map_of (purgedRefs k rs) fp' = None"
    by (simp add: map_of_eq_None_iff)
  with Cons show ?case
    by (auto simp: r purgedRefs_Cons)
qed

lemma purgedRefs_id:
  "[] \<notin> snd ` set rs \<Longrightarrow> \<forall>e \<in> set (concat (map snd rs)). k \<le> nanos e \<Longrightarrow> purgedRefs k rs = rs"
proof (induction rs)
  case Nil
  show ?case by (simp add: purgedRefs_def)
next
  case (Cons r rs)
  obtain fp es where r: "r = (fp, es)" by (cases r)
  from Cons.prems have "survivors k es = es" "es \<noteq> []"
    by (auto simp: r survivors_def)
  with Cons show ?case by (auto simp: r purgedRefs_Cons)
qed

lemma purge_fast_id:
  assumes "I3 s" "I4 s" "\<not> slowPath k s"
  shows "purgedRefs k (refs s) = refs s"
proof (rule purgedRefs_id)
  show "[] \<notin> snd ` set (refs s)" using assms(2) by (simp add: I4_def)
  show "\<forall>e \<in> set (concat (map snd (refs s))). k \<le> nanos e"
    using assms(1,3) by (fastforce simp: I3_def slowPath_def allEntries_def)
qed

lemma purge_ok:
  assumes "\<forall>e \<in> set (allEntries s). length (matches e) \<le> len (activeMatching s)"
  shows "\<exists>s'. purge k s = Inr s'"
proof (cases "slowPath k s")
  case False
  then show ?thesis by (simp add: purge_fast)
next
  case True
  have "\<exists>am'. incEntries (survivors k (allEntries s))
      (resizeAndClear (len (activeMatching s)) (activeMatching s)) = Inr am'"
    by (rule incEntries_ok) (use assms in \<open>simp add: survivors_def\<close>)
  then show ?thesis by (auto simp: purge_slow [OF True])
qed

lemma purge_refs:
  assumes "purge k s = Inr s'" "slowPath k s \<or> I3 s \<and> I4 s"
  shows "refs s' = purgedRefs k (refs s)"
proof (cases "slowPath k s")
  case True
  with assms(1) show ?thesis by (auto simp: purge_slow split: sum.splits)
next
  case False
  with assms show ?thesis by (simp add: purge_fast purge_fast_id)
qed

text \<open>
  Claim C2. For every stripe state and every cutoff \<open>keep_until_ns\<close>, purge returns, and
  afterwards exactly the entries with \<open>keep_until_ns \<le> nanos\<close> remain, each in its chain
  and in its place: an entry whose timestamp equals the cutoff is kept, every strictly
  older one is removed, in chains of one entry and in collision chains alike, and a key is
  in the map afterwards exactly when its chain has a survivor. On the slow path this needs
  nothing of the state but its well-formedness; where purge takes its shortcut the state
  is one that satisfies (I3) and (I4), as every state of a stripe does.
\<close>

theorem purge_keeps_exactly:
  assumes "stripe_wf s" "slowPath keep_until_ns s \<or> I3 s \<and> I4 s"
  shows "\<exists>s'. purge keep_until_ns s = Inr s' \<and>
           refs s' = filter (\<lambda>(fp, es). es \<noteq> [])
                       (map (\<lambda>(fp, es). (fp, filter (\<lambda>e. keep_until_ns \<le> nanos e) es)) (refs s)) \<and>
           allEntries s' = filter (\<lambda>e. keep_until_ns \<le> nanos e) (allEntries s) \<and>
           (\<forall>fp. chainOf fp s' = filter (\<lambda>e. keep_until_ns \<le> nanos e) (chainOf fp s)) \<and>
           (\<forall>fp. fp \<in> fst ` set (refs s') \<longleftrightarrow>
                 filter (\<lambda>e. keep_until_ns \<le> nanos e) (chainOf fp s) \<noteq> [])"
proof -
  from assms(1) obtain s' where p: "purge keep_until_ns s = Inr s'"
    using purge_ok [of s keep_until_ns] by (auto simp: stripe_wf_def)
  from assms(1) have d: "distinct (map fst (refs s))"
    by (simp add: stripe_wf_def)
  have r: "refs s' = purgedRefs keep_until_ns (refs s)"
    using p assms(2) by (rule purge_refs)
  have m: "map_of (refs s') fp =
      (if survivors keep_until_ns (chainOf fp s) = [] then None
       else Some (survivors keep_until_ns (chainOf fp s)))" for fp
    by (simp add: r map_of_purgedRefs [OF d] chainOf_def survivors_def split: option.splits)
  have "chainOf fp s' = survivors keep_until_ns (chainOf fp s)" for fp
    using m [of fp] by (simp add: chainOf_def [of fp s'])
  moreover have "fp \<in> fst ` set (refs s') \<longleftrightarrow> survivors keep_until_ns (chainOf fp s) \<noteq> []" for fp
    using m [of fp] map_of_eq_None_iff [of "refs s'" fp] by (auto split: if_splits)
  moreover have "allEntries s' = survivors keep_until_ns (allEntries s)"
    by (simp add: allEntries_def [of s'] r allEntries_purgedRefs)
  ultimately show ?thesis using p r
    by (simp add: survivors_def purgedRefs_def)
qed


theorem purge_keeps_exactly_witness:
  "stripe_wf exStripe \<and> slowPath 100 exStripe \<and>
   (\<exists>s'. purge 100 exStripe = Inr s' \<and>
         refs s' = [(1, [exEntry ''a'' 100]), (2, [exEntry ''c'' 100])] \<and>
         chainOf 2 exStripe = [exEntry ''b'' 50, exEntry ''c'' 100, exEntry ''d'' 99] \<and>
         chainOf 2 s' = [exEntry ''c'' 100] \<and>
         chainOf 3 s' = [] \<and> 3 \<notin> fst ` set (refs s')) \<and>
   stripe_wf exStripeHint \<and> \<not> slowPath 50 exStripeHint \<and> I3 exStripeHint \<and> I4 exStripeHint \<and>
   (\<exists>s'. purge 50 exStripeHint = Inr s' \<and> refs s' = refs exStripeHint)"
proof -
  have wf: "stripe_wf exStripe"
    by (simp add: stripe_wf_def exStripe_def exMatchers_def exEntry_def allEntries_def
        cap_def MatcherNames_def)
  have sl: "slowPath 100 exStripe" by (simp add: slowPath_def exStripe_def)
  from purge_keeps_exactly [OF wf disjI1 [OF sl]] obtain s' where
    p: "purge 100 exStripe = Inr s'" and
    r: "refs s' = filter (\<lambda>(fp, es). es \<noteq> [])
          (map (\<lambda>(fp, es). (fp, filter (\<lambda>e. 100 \<le> nanos e) es)) (refs exStripe))" and
    c: "\<forall>fp. chainOf fp s' = filter (\<lambda>e. 100 \<le> nanos e) (chainOf fp exStripe)"
    by blast
  have "refs s' = [(1, [exEntry ''a'' 100]), (2, [exEntry ''c'' 100])]"
    by (simp add: r exStripe_def exEntry_def)
  moreover have "chainOf 2 exStripe = [exEntry ''b'' 50, exEntry ''c'' 100, exEntry ''d'' 99]"
    by (simp add: chainOf_def exStripe_def)
  moreover have "chainOf 3 exStripe = [exEntry ''e'' 99]"
    by (simp add: chainOf_def exStripe_def)
  ultimately have slow: "\<exists>s'. purge 100 exStripe = Inr s' \<and>
         refs s' = [(1, [exEntry ''a'' 100]), (2, [exEntry ''c'' 100])] \<and>
         chainOf 2 exStripe = [exEntry ''b'' 50, exEntry ''c'' 100, exEntry ''d'' 99] \<and>
         chainOf 2 s' = [exEntry ''c'' 100] \<and>
         chainOf 3 s' = [] \<and> 3 \<notin> fst ` set (refs s')"
    using p c by (auto simp: exEntry_def)
  have wfh: "stripe_wf exStripeHint"
    by (simp add: stripe_wf_def exStripeHint_def exStripe_def exMatchers_def exEntry_def
        allEntries_def cap_def MatcherNames_def)
  have fast: "\<not> slowPath 50 exStripeHint"
    by (simp add: slowPath_def exStripeHint_def)
  have i3: "I3 exStripeHint"
    by (simp add: I3_def exStripeHint_def exStripe_def allEntries_def exEntry_def)
  have i4: "I4 exStripeHint" by (simp add: I4_def exStripeHint_def exStripe_def)
  from purge_keeps_exactly [OF wfh disjI2 [OF conjI [OF i3 i4]], of 50] obtain t' where
    "purge 50 exStripeHint = Inr t'" and
    "refs t' = filter (\<lambda>(fp, es). es \<noteq> [])
          (map (\<lambda>(fp, es). (fp, filter (\<lambda>e. 50 \<le> nanos e) es)) (refs exStripeHint))"
    by blast
  moreover have "filter (\<lambda>(fp, es). es \<noteq> [])
          (map (\<lambda>(fp, es). (fp, filter (\<lambda>e. 50 \<le> nanos e) es)) (refs exStripeHint)) =
        refs exStripeHint"
    by (simp add: exStripeHint_def exStripe_def exEntry_def)
  ultimately have "\<exists>s'. purge 50 exStripeHint = Inr s' \<and> refs s' = refs exStripeHint"
    by simp
  with slow wf sl wfh fast i3 i4 show ?thesis by blast
qed

lemma purge_oldest:
  assumes "purge k s = Inr s'" "slowPath k s"
  shows "oldestEntryTs s' =
     (if lowest MaxInt64 (survivors k (allEntries s)) = MaxInt64 then 0
      else lowest MaxInt64 (survivors k (allEntries s)))"
  using assms by (auto simp: purge_slow split: sum.splits)

lemma purge_allEntries:
  assumes "purge k s = Inr s'" "slowPath k s \<or> I3 s \<and> I4 s"
  shows "allEntries s' = survivors k (allEntries s)"
  using purge_refs [OF assms] by (simp add: allEntries_def [of s'] allEntries_purgedRefs)

text \<open>
  Claim C10, as stated, fails: \<open>oldest\<close> starts at \<^verbatim>\<open>math.MaxInt64\<close> and the same value
  means "no survivor" after the loop, so a stripe whose only survivor carries the timestamp
  \<^verbatim>\<open>math.MaxInt64\<close> ends with \<open>oldestEntryTs = 0\<close>, not with the minimum.
\<close>

theorem purge_oldest_not_exact:
  "slowPath 0 maxStripe \<and> purge 0 maxStripe = Inr maxStripe \<and>
   allEntries maxStripe = [\<lparr>lbs = [], nanos = MaxInt64, matches = []\<rparr>] \<and>
   oldestEntryTs maxStripe = 0 \<and>
   Min (nanos ` set (allEntries maxStripe)) = 9223372036854775807 \<and>
   oldestEntryTs maxStripe \<noteq> Min (nanos ` set (allEntries maxStripe))"
  by (simp add: purge_slow slowPath_def maxStripe_def allEntries_def survivors_def
      purgedRefs_def nil_slice_def resizeAndClear_def cap_def clearLoop.simps MaxInt64_def)

text \<open>
  Claim C10, amended. After purge takes its slow path on a stripe of \<^verbatim>\<open>int64\<close>
  timestamps, \<open>oldestEntryTs\<close> is exactly the minimum timestamp of the surviving entries
  when that minimum is below \<^verbatim>\<open>math.MaxInt64\<close>; it is 0 when no entry survives, and
  also when the minimum is \<^verbatim>\<open>math.MaxInt64\<close>.
\<close>

theorem purge_oldest_exact:
  assumes "stripe_wf s" "slowPath k s" "\<forall>e \<in> set (allEntries s). nanos e \<le> MaxInt64"
  shows "\<exists>s'. purge k s = Inr s' \<and>
           allEntries s' = filter (\<lambda>e. k \<le> nanos e) (allEntries s) \<and>
           (allEntries s' = [] \<longrightarrow> oldestEntryTs s' = 0) \<and>
           (allEntries s' \<noteq> [] \<longrightarrow>
              (Min (nanos ` set (allEntries s')) < MaxInt64 \<longrightarrow>
                 oldestEntryTs s' = Min (nanos ` set (allEntries s'))) \<and>
              (Min (nanos ` set (allEntries s')) = MaxInt64 \<longrightarrow> oldestEntryTs s' = 0))"
proof -
  from assms(1) obtain s' where p: "purge k s = Inr s'"
    using purge_ok [of s k] by (auto simp: stripe_wf_def)
  define sv where "sv = survivors k (allEntries s)"
  define x where "x = lowest MaxInt64 sv"
  have a: "allEntries s' = sv"
    using purge_allEntries [OF p] assms(2) by (simp add: sv_def)
  have h: "oldestEntryTs s' = (if x = MaxInt64 then 0 else x)"
    using purge_oldest [OF p assms(2)] by (simp add: x_def sv_def)
  have le: "x \<le> MaxInt64" unfolding x_def by (rule lowest_le)
  have lower: "\<forall>e \<in> set sv. x \<le> nanos e" unfolding x_def by (simp add: lowest_lower)
  have att: "x = MaxInt64 \<or> x \<in> nanos ` set sv" unfolding x_def by (rule lowest_attained)
  have range: "\<forall>e \<in> set sv. nanos e \<le> MaxInt64"
    using assms(3) by (simp add: sv_def survivors_def)
  have empty: "sv = [] \<Longrightarrow> oldestEntryTs s' = 0"
    using h by (simp add: x_def)
  have ne: "oldestEntryTs s' = (if Min (nanos ` set sv) < MaxInt64 then Min (nanos ` set sv) else 0)"
    "Min (nanos ` set sv) \<le> MaxInt64" if "sv \<noteq> []"
  proof -
    let ?M = "nanos ` set sv"
    have fin: "finite ?M" "?M \<noteq> {}" using that by simp_all
    have xm: "x \<le> Min ?M" using fin lower by (simp add: Min_ge_iff)
    have "Min ?M \<in> ?M" using fin by (rule Min_in)
    with range show mm: "Min ?M \<le> MaxInt64" by auto
    show "oldestEntryTs s' = (if Min ?M < MaxInt64 then Min ?M else 0)"
    proof (cases "x = MaxInt64")
      case True
      with xm mm h show ?thesis by simp
    next
      case False
      with att have "x \<in> ?M" by simp
      then have "Min ?M \<le> x" using fin by (simp add: Min_le)
      with xm have "x = Min ?M" by simp
      with False h mm show ?thesis by simp
    qed
  qed
  show ?thesis using p a empty ne by (auto simp: sv_def survivors_def)
qed


theorem purge_oldest_exact_witness:
  "stripe_wf exStripe \<and> slowPath 100 exStripe \<and> slowPath 200 exStripe \<and>
   stripe_wf maxStripe \<and> slowPath 0 maxStripe \<and>
   (\<exists>s'. purge 100 exStripe = Inr s' \<and>
         allEntries s' = [exEntry ''a'' 100, exEntry ''c'' 100] \<and> oldestEntryTs s' = 100) \<and>
   (\<exists>s'. purge 200 exStripe = Inr s' \<and> allEntries s' = [] \<and> oldestEntryTs s' = 0) \<and>
   (\<exists>s'. purge 0 maxStripe = Inr s' \<and> allEntries s' = allEntries maxStripe \<and>
         oldestEntryTs s' = 0)"
proof -
  have wf: "stripe_wf exStripe"
    by (simp add: stripe_wf_def exStripe_def exMatchers_def exEntry_def allEntries_def
        cap_def MatcherNames_def)
  have wfm: "stripe_wf maxStripe"
    by (simp add: stripe_wf_def maxStripe_def allEntries_def cap_def MatcherNames_def
        nil_slice_def)
  have sl: "slowPath 100 exStripe" "slowPath 200 exStripe" "slowPath 0 maxStripe"
    by (simp_all add: slowPath_def exStripe_def maxStripe_def)
  have r: "\<forall>e \<in> set (allEntries exStripe). nanos e \<le> MaxInt64"
    "\<forall>e \<in> set (allEntries maxStripe). nanos e \<le> MaxInt64"
    by (simp_all add: allEntries_def exStripe_def maxStripe_def exEntry_def MaxInt64_def)
  have e1: "filter (\<lambda>e. 100 \<le> nanos e) (allEntries exStripe) = [exEntry ''a'' 100, exEntry ''c'' 100]"
    and e2: "filter (\<lambda>e. 200 \<le> nanos e) (allEntries exStripe) = []"
    and e3: "filter (\<lambda>e. 0 \<le> nanos e) (allEntries maxStripe) = allEntries maxStripe"
    by (simp_all add: allEntries_def exStripe_def maxStripe_def exEntry_def MaxInt64_def)
  have m1: "Min (nanos ` set [exEntry ''a'' 100, exEntry ''c'' 100]) = 100"
    "(100::int) < MaxInt64"
    and m3: "Min (nanos ` set (allEntries maxStripe)) = MaxInt64" "allEntries maxStripe \<noteq> []"
    by (simp_all add: exEntry_def allEntries_def maxStripe_def MaxInt64_def)
  from purge_oldest_exact [OF wf sl(1) r(1)] e1 m1
  have "\<exists>s'. purge 100 exStripe = Inr s' \<and>
         allEntries s' = [exEntry ''a'' 100, exEntry ''c'' 100] \<and> oldestEntryTs s' = 100"
    by auto
  moreover from purge_oldest_exact [OF wf sl(2) r(1)] e2
  have "\<exists>s'. purge 200 exStripe = Inr s' \<and> allEntries s' = [] \<and> oldestEntryTs s' = 0"
    by auto
  moreover from purge_oldest_exact [OF wfm sl(3) r(2)] e3 m3
  have "\<exists>s'. purge 0 maxStripe = Inr s' \<and> allEntries s' = allEntries maxStripe \<and>
         oldestEntryTs s' = 0"
    by auto
  ultimately show ?thesis using wf wfm sl by blast
qed

subsection \<open>Lookup and update of a chain\<close>

lemma findIn_None_iff: "findIn l es = None \<longleftrightarrow> l \<notin> lbs ` set es"
  by (induction es) auto

lemma findIn_Some: "findIn l es = Some i \<Longrightarrow> i < length es \<and> lbs (es ! i) = l"
  by (induction es arbitrary: i) (auto split: if_splits)

lemma findIn_cong_lbs: "map lbs es = map lbs es' \<Longrightarrow> findIn l es = findIn l es'"
proof (induction es arbitrary: es')
  case Nil
  then show ?case by simp
next
  case (Cons e es)
  then obtain e' es'' where "es' = e' # es''" by (cases es') auto
  with Cons show ?case by auto
qed

lemma map_update_nanos:
  "map lbs (es[i := (es ! i)\<lparr>nanos := t\<rparr>]) = map lbs es \<and>
   map matches (es[i := (es ! i)\<lparr>nanos := t\<rparr>]) = map matches es"
proof (cases "i < length es")
  case True
  then show ?thesis by (simp add: map_update list_update_same_conv)
next
  case False
  then have "es[i := (es ! i)\<lparr>nanos := t\<rparr>] = es" by (simp add: not_less list_update_beyond)
  then show ?thesis by simp
qed

lemma findIn_update_nanos [simp]: "findIn l (es[i := (es ! i)\<lparr>nanos := t\<rparr>]) = findIn l es"
  by (rule findIn_cong_lbs) (simp add: map_update_nanos)

lemma findIn_append_new:
  "findIn l es = None \<Longrightarrow> lbs e = l \<Longrightarrow> findIn l (es @ [e]) = Some (length es)"
  by (induction es) (auto split: if_splits)

lemma countMatching_cong: "map matches es = map matches es' \<Longrightarrow> countMatching j es = countMatching j es'"
proof (induction es arbitrary: es')
  case Nil
  then show ?case by simp
next
  case (Cons e es)
  then obtain e' es'' where "es' = e' # es''" by (cases es') auto
  with Cons show ?case by auto
qed

lemma countMatching_mset: "countMatching j es = int (size (filter_mset (\<lambda>e. j < length (matches e) \<and> matches e ! j) (mset es)))"
  by (simp add: countMatching_def flip: mset_filter)

lemma mset_entries_update:
  "mset (concat (map snd (AList.update fp v rs))) +
     mset (case map_of rs fp of None \<Rightarrow> [] | Some es \<Rightarrow> es) =
   mset (concat (map snd rs)) + mset v"
  by (induction rs) auto

lemma chainOf_subset: "set (chainOf fp s) \<subseteq> set (allEntries s)"
proof (cases "map_of (refs s) fp")
  case None
  then show ?thesis by (simp add: chainOf_def)
next
  case (Some es)
  then have "(fp, es) \<in> set (refs s)" by (rule map_of_SomeD)
  then have "set es \<subseteq> set (allEntries s)" by (force simp: allEntries_def)
  with Some show ?thesis by (simp add: chainOf_def)
qed

lemma set_entries_update:
  "set (concat (map snd (AList.update fp v rs))) \<subseteq> set (concat (map snd rs)) \<union> set v"
  by (induction rs) auto

lemma update_hit:
  assumes "findIn series (chainOf fp s) = Some i"
  shows "updateSeriesTimestamp now series fp lc s =
     Inr (if nanos (chainOf fp s ! i) < now
          then (storeNanos fp i now s)
                 \<lparr>oldestEntryTs := (if now < oldestEntryTs s then 0 else oldestEntryTs s)\<rparr>
          else s)"
  using assms
  by (simp add: updateSeriesTimestamp_def findEntryForSeries_def storeNanos_def)

lemma update_miss:
  assumes "findIn series (chainOf fp s) = None"
  shows "updateSeriesTimestamp now series fp lc s =
     (case incMatching 0 (Matches (smatchers s) series) (activeMatching s) of
        Inl e \<Rightarrow> Inl e
      | Inr am \<Rightarrow>
          Inr (s\<lparr>oldestEntryTs := (if now < oldestEntryTs s then 0 else oldestEntryTs s),
                 refs := AList.update fp
                   (chainOf fp s @ [\<lparr>lbs = lc series, nanos = now,
                                     matches = Matches (smatchers s) series\<rparr>]) (refs s),
                 active := active s + 1,
                 activeMatching := am\<rparr>))"
  using assms
  by (simp add: updateSeriesTimestamp_def findEntryForSeries_def
      findOrCreateEntryForSeries_def Let_def split: sum.splits)


lemma I1_alt: "I1 s \<longleftrightarrow> active s = int (length (allEntries s))"
proof -
  have "(\<Sum>es \<leftarrow> map snd rs. int (length es)) = int (length (concat (map snd rs)))" for rs :: "(fingerprint \<times> activeSeriesEntry list) list"
    by (induction rs) auto
  then show ?thesis by (simp add: I1_def allEntries_def)
qed

lemma entries_update_mset:
  assumes "refs s' = AList.update fp v (refs s)"
  shows "mset (allEntries s') + mset (chainOf fp s) = mset (allEntries s) + mset v"
  using mset_entries_update [of fp v "refs s"] assms
  by (simp add: allEntries_def chainOf_def)

lemma entries_update_length:
  assumes "refs s' = AList.update fp v (refs s)"
  shows "int (length (allEntries s')) = int (length (allEntries s)) - int (length (chainOf fp s)) + int (length v)"
proof -
  have "size (mset (allEntries s') + mset (chainOf fp s)) = size (mset (allEntries s) + mset v)"
    by (simp only: entries_update_mset [OF assms])
  then show ?thesis by simp
qed

lemma entries_update_count:
  assumes "refs s' = AList.update fp v (refs s)"
  shows "countMatching j (allEntries s') =
     countMatching j (allEntries s) - countMatching j (chainOf fp s) + countMatching j v"
proof -
  let ?P = "\<lambda>e. j < length (matches e) \<and> matches e ! j"
  have "size (filter_mset ?P (mset (allEntries s') + mset (chainOf fp s))) =
      size (filter_mset ?P (mset (allEntries s) + mset v))"
    by (simp only: entries_update_mset [OF assms])
  then show ?thesis by (simp add: countMatching_mset)
qed

lemma entries_update_set:
  assumes "refs s' = AList.update fp v (refs s)"
  shows "set (allEntries s') \<subseteq> set (allEntries s) \<union> set v"
  using set_entries_update [of fp v "refs s"] assms by (simp add: allEntries_def)

lemma chainOf_update:
  assumes "refs s' = AList.update fp v (refs s)"
  shows "chainOf fp s' = v" and "fp' \<noteq> fp \<Longrightarrow> chainOf fp' s' = chainOf fp' s"
  using assms by (simp_all add: chainOf_def update_conv')

text \<open>The three ways a call of \<open>updateSeriesTimestamp\<close> ends.\<close>

lemma update_cases [consumes 1, case_names same advance insert]:
  assumes "updateSeriesTimestamp now series fp lc s = Inr s'"
  obtains
    i where "findIn series (chainOf fp s) = Some i" "now \<le> nanos (chainOf fp s ! i)" "s' = s"
  | i where "findIn series (chainOf fp s) = Some i" "nanos (chainOf fp s ! i) < now"
      "s' = s\<lparr>oldestEntryTs := (if now < oldestEntryTs s then 0 else oldestEntryTs s),
              refs := AList.update fp
                ((chainOf fp s)[i := (chainOf fp s ! i)\<lparr>nanos := now\<rparr>]) (refs s)\<rparr>"
  | am where "findIn series (chainOf fp s) = None"
      "incMatching 0 (Matches (smatchers s) series) (activeMatching s) = Inr am"
      "s' = s\<lparr>oldestEntryTs := (if now < oldestEntryTs s then 0 else oldestEntryTs s),
              refs := AList.update fp
                (chainOf fp s @ [\<lparr>lbs = lc series, nanos = now,
                                  matches = Matches (smatchers s) series\<rparr>]) (refs s),
              active := active s + 1,
              activeMatching := am\<rparr>"
proof (cases "findIn series (chainOf fp s)")
  case None
  with assms that(3) show ?thesis
    by (auto simp: update_miss split: sum.splits)
next
  case (Some i)
  show ?thesis
  proof (cases "nanos (chainOf fp s ! i) < now")
    case True
    with assms Some have eq: "s' = s\<lparr>oldestEntryTs := (if now < oldestEntryTs s then 0 else oldestEntryTs s),
              refs := AList.update fp
                ((chainOf fp s)[i := (chainOf fp s ! i)\<lparr>nanos := now\<rparr>]) (refs s)\<rparr>"
      by (auto simp: update_hit storeNanos_def)
    show ?thesis by (rule that(2) [OF Some True eq])
  next
    case False
    with assms Some have eq: "s' = s"
      by (simp add: update_hit)
    from False have "now \<le> nanos (chainOf fp s ! i)" by simp
    then show ?thesis by (rule that(1) [OF Some _ eq])
  qed
qed

lemma update_ok:
  assumes "stripe_wf s"
  shows "\<exists>s'. updateSeriesTimestamp now series fp lc s = Inr s'"
proof (cases "findIn series (chainOf fp s)")
  case None
  from assms have "0 + length (Matches (smatchers s) series) \<le> len (activeMatching s)"
    by (simp add: stripe_wf_def Matches_def MatcherNames_def)
  from incMatching_ok [OF this] None show ?thesis
    by (auto simp: update_miss)
next
  case (Some i)
  then show ?thesis by (simp add: update_hit)
qed


lemma update_smatchers:
  assumes "updateSeriesTimestamp now series fp lc s = Inr s'"
  shows "smatchers s' = smatchers s"
  using assms by (cases rule: update_cases) simp_all

lemma set_update_nanos:
  assumes "i < length es"
  shows "set (es[i := (es ! i)\<lparr>nanos := t\<rparr>]) \<subseteq> insert ((es ! i)\<lparr>nanos := t\<rparr>) (set es)"
  by (rule set_update_subset_insert)

lemma update_wf:
  assumes u: "updateSeriesTimestamp now series fp lc s = Inr s'" and wf: "stripe_wf s"
  shows "stripe_wf s'"
  using u
proof (cases rule: update_cases)
  case (same i)
  with wf show ?thesis by simp
next
  case (advance i)
  let ?c = "chainOf fp s"
  let ?v = "?c[i := (?c ! i)\<lparr>nanos := now\<rparr>]"
  have r: "refs s' = AList.update fp ?v (refs s)" by (simp add: advance(3))
  have am: "activeMatching s' = activeMatching s" "smatchers s' = smatchers s"
    by (simp_all add: advance(3))
  from findIn_Some [OF advance(1)] have i: "i < length ?c" by simp
  then have ci: "?c ! i \<in> set (allEntries s)" using chainOf_subset [of fp s] by auto
  have "length (matches e) = len (activeMatching s)" if "e \<in> set (allEntries s')" for e
  proof -
    from that entries_update_set [OF r] have "e \<in> set (allEntries s) \<or> e \<in> set ?v" by auto
    moreover have "set ?v \<subseteq> insert ((?c ! i)\<lparr>nanos := now\<rparr>) (set ?c)"
      by (rule set_update_subset_insert)
    ultimately have "e \<in> set (allEntries s) \<or> e = (?c ! i)\<lparr>nanos := now\<rparr>"
      using chainOf_subset [of fp s] by auto
    with wf ci show ?thesis by (auto simp: stripe_wf_def)
  qed
  moreover have "distinct (map fst (refs s'))"
    using wf by (simp add: r stripe_wf_def distinct_update)
  ultimately show ?thesis using wf am by (simp add: stripe_wf_def)
next
  case (insert am)
  let ?c = "chainOf fp s"
  let ?e = "\<lparr>lbs = lc series, nanos = now, matches = Matches (smatchers s) series\<rparr>"
  have r: "refs s' = AList.update fp (?c @ [?e]) (refs s)" by (simp add: insert(3))
  have am: "activeMatching s' = am" "smatchers s' = smatchers s"
    by (simp_all add: insert(3))
  from incMatching_shape [OF insert(2)]
  have sh: "len am = len (activeMatching s)" "cap am = cap (activeMatching s)"
    by (simp_all add: cap_def)
  have "length (matches e) = len (activeMatching s)" if "e \<in> set (allEntries s')" for e
  proof -
    from that entries_update_set [OF r] have "e \<in> set (allEntries s) \<or> e \<in> set (?c @ [?e])"
      by auto
    then have "e \<in> set (allEntries s) \<or> e = ?e"
      using chainOf_subset [of fp s] by auto
    with wf show ?thesis by (auto simp: stripe_wf_def Matches_def MatcherNames_def)
  qed
  moreover have "distinct (map fst (refs s'))"
    using wf by (simp add: r stripe_wf_def distinct_update)
  ultimately show ?thesis using wf am sh by (simp add: stripe_wf_def)
qed

lemma update_I1:
  assumes u: "updateSeriesTimestamp now series fp lc s = Inr s'" and inv: "I1 s"
  shows "I1 s'"
  using u
proof (cases rule: update_cases)
  case (same i)
  with inv show ?thesis by simp
next
  case (advance i)
  let ?c = "chainOf fp s"
  have r: "refs s' = AList.update fp (?c[i := (?c ! i)\<lparr>nanos := now\<rparr>]) (refs s)"
    by (simp add: advance(3))
  have "active s' = active s" by (simp add: advance(3))
  with entries_update_length [OF r] inv show ?thesis by (simp add: I1_alt)
next
  case (insert am)
  let ?c = "chainOf fp s"
  let ?e = "\<lparr>lbs = lc series, nanos = now, matches = Matches (smatchers s) series\<rparr>"
  have r: "refs s' = AList.update fp (?c @ [?e]) (refs s)" by (simp add: insert(3))
  have "active s' = active s + 1" by (simp add: insert(3))
  with entries_update_length [OF r] inv show ?thesis by (simp add: I1_alt)
qed

lemma update_I2:
  assumes u: "updateSeriesTimestamp now series fp lc s = Inr s'" and inv: "I2 s"
    and wf: "stripe_wf s"
  shows "I2 s'"
  using u
proof (cases rule: update_cases)
  case (same i)
  with inv show ?thesis by simp
next
  case (advance i)
  let ?c = "chainOf fp s"
  let ?v = "?c[i := (?c ! i)\<lparr>nanos := now\<rparr>]"
  have r: "refs s' = AList.update fp ?v (refs s)" by (simp add: advance(3))
  have am: "activeMatching s' = activeMatching s" by (simp add: advance(3))
  have "countMatching j ?v = countMatching j ?c" for j
    by (rule countMatching_cong) (simp add: map_update_nanos)
  with entries_update_count [OF r] have "countMatching j (allEntries s') = countMatching j (allEntries s)" for j
    by simp
  with inv am show ?thesis by (simp add: I2_def)
next
  case (insert am)
  let ?c = "chainOf fp s"
  let ?ms = "Matches (smatchers s) series"
  let ?e = "\<lparr>lbs = lc series, nanos = now, matches = ?ms\<rparr>"
  have r: "refs s' = AList.update fp (?c @ [?e]) (refs s)" by (simp add: insert(3))
  have am: "activeMatching s' = am" by (simp add: insert(3))
  from wf have le: "len (activeMatching s) \<le> cap (activeMatching s)" by (simp add: stripe_wf_def)
  have cnt: "countMatching j (allEntries s') =
      countMatching j (allEntries s) + (if j < length ?ms \<and> ?ms ! j then 1 else 0)" for j
    using entries_update_count [OF r, of j] by simp
  have "elems am ! j = countMatching j (allEntries s')" if "j < len am" for j
  proof -
    from that incMatching_shape [OF insert(2)] have j: "j < len (activeMatching s)" by simp
    from incMatching_elems [OF insert(2) le j] inv j cnt [of j] show ?thesis
      by (simp add: I2_def)
  qed
  then show ?thesis by (simp add: I2_def am)
qed

lemma update_I3:
  assumes u: "updateSeriesTimestamp now series fp lc s = Inr s'" and inv: "I3 s"
  shows "I3 s'"
  using u
proof (cases rule: update_cases)
  case (same i)
  with inv show ?thesis by simp
next
  case (advance i)
  let ?c = "chainOf fp s"
  let ?v = "?c[i := (?c ! i)\<lparr>nanos := now\<rparr>]"
  have r: "refs s' = AList.update fp ?v (refs s)" by (simp add: advance(3))
  have h: "oldestEntryTs s' = (if now < oldestEntryTs s then 0 else oldestEntryTs s)"
    by (simp add: advance(3))
  have "set ?v \<subseteq> insert ((?c ! i)\<lparr>nanos := now\<rparr>) (set ?c)"
    by (rule set_update_subset_insert)
  with entries_update_set [OF r] chainOf_subset [of fp s]
  have "\<forall>e \<in> set (allEntries s'). e \<in> set (allEntries s) \<or> nanos e = now"
    by auto
  with inv h show ?thesis by (auto simp: I3_def)
next
  case (insert am)
  let ?c = "chainOf fp s"
  let ?e = "\<lparr>lbs = lc series, nanos = now, matches = Matches (smatchers s) series\<rparr>"
  have r: "refs s' = AList.update fp (?c @ [?e]) (refs s)" by (simp add: insert(3))
  have h: "oldestEntryTs s' = (if now < oldestEntryTs s then 0 else oldestEntryTs s)"
    by (simp add: insert(3))
  from entries_update_set [OF r] chainOf_subset [of fp s]
  have "\<forall>e \<in> set (allEntries s'). e \<in> set (allEntries s) \<or> nanos e = now"
    by auto
  with inv h show ?thesis by (auto simp: I3_def)
qed

lemma values_update: "snd ` set (AList.update fp v rs) \<subseteq> insert v (snd ` set rs)"
  by (induction rs) auto

lemma I4_update:
  assumes "refs s' = AList.update fp v (refs s)" "v \<noteq> []" "I4 s"
  shows "I4 s'"
proof -
  have "snd ` set (refs s') \<subseteq> insert v (snd ` set (refs s))"
    unfolding assms(1) by (rule values_update)
  moreover have "[] \<notin> insert v (snd ` set (refs s))"
    using assms(2,3) unfolding I4_def by blast
  ultimately show ?thesis unfolding I4_def by blast
qed

lemma update_I4:
  assumes u: "updateSeriesTimestamp now series fp lc s = Inr s'" and inv: "I4 s"
  shows "I4 s'"
  using u
proof (cases rule: update_cases)
  case (same i)
  with inv show ?thesis by simp
next
  case (advance i)
  let ?c = "chainOf fp s"
  let ?v = "?c[i := (?c ! i)\<lparr>nanos := now\<rparr>]"
  have r: "refs s' = AList.update fp ?v (refs s)" by (simp add: advance(3))
  from findIn_Some [OF advance(1)] have "?v \<noteq> []" by auto
  with r show ?thesis using inv by (rule I4_update)
next
  case (insert am)
  let ?v = "chainOf fp s @ [\<lparr>lbs = lc series, nanos = now, matches = Matches (smatchers s) series\<rparr>]"
  have r: "refs s' = AList.update fp ?v (refs s)" by (simp add: insert(3))
  have "?v \<noteq> []" by simp
  with r show ?thesis using inv by (rule I4_update)
qed

subsection \<open>Purge and reinitialize keep the invariants\<close>

lemma purge_smatchers:
  assumes "purge k s = Inr s'"
  shows "smatchers s' = smatchers s"
proof (cases "slowPath k s")
  case True
  with assms show ?thesis by (auto simp: purge_slow split: sum.splits)
next
  case False
  with assms show ?thesis by (simp add: purge_fast)
qed

lemma purge_slow_fields:
  assumes "purge k s = Inr s'" "slowPath k s"
  obtains am' where
    "incEntries (survivors k (allEntries s))
       (resizeAndClear (len (activeMatching s)) (activeMatching s)) = Inr am'"
    "activeMatching s' = am'"
    "active s' = int (length (survivors k (allEntries s)))"
    "refs s' = purgedRefs k (refs s)"
  using assms by (auto simp: purge_slow split: sum.splits)

lemma purge_wf:
  assumes p: "purge k s = Inr s'" and wf: "stripe_wf s"
  shows "stripe_wf s'"
proof (cases "slowPath k s")
  case False
  with p wf show ?thesis by (simp add: purge_fast)
next
  case True
  from p True obtain am' where
    inc: "incEntries (survivors k (allEntries s))
       (resizeAndClear (len (activeMatching s)) (activeMatching s)) = Inr am'" and
    am: "activeMatching s' = am'" and r: "refs s' = purgedRefs k (refs s)"
    by (rule purge_slow_fields)
  from incEntries_shape [OF inc]
  have sh: "len am' = len (activeMatching s)" "len (activeMatching s) \<le> cap am'"
    by (simp_all add: cap_def)
  have a: "allEntries s' = survivors k (allEntries s)"
    using purge_allEntries [OF p] True by simp
  have "distinct (map fst (refs s'))"
    using wf by (simp add: r stripe_wf_def distinct_purgedRefs)
  moreover have "\<forall>e \<in> set (allEntries s'). length (matches e) = len (activeMatching s)"
    using wf by (simp add: a survivors_def stripe_wf_def)
  ultimately show ?thesis
    using wf sh am purge_smatchers [OF p] by (simp add: stripe_wf_def)
qed

lemma purge_I1:
  assumes p: "purge k s = Inr s'" and inv: "slowPath k s \<or> I1 s"
  shows "I1 s'"
proof (cases "slowPath k s")
  case False
  with p inv show ?thesis by (simp add: purge_fast)
next
  case True
  from p True obtain am' where "active s' = int (length (survivors k (allEntries s)))"
    by (rule purge_slow_fields)
  moreover have "allEntries s' = survivors k (allEntries s)"
    using purge_allEntries [OF p] True by simp
  ultimately show ?thesis by (simp add: I1_alt)
qed

lemma purge_I2:
  assumes p: "purge k s = Inr s'" and inv: "slowPath k s \<or> I2 s"
  shows "I2 s'"
proof (cases "slowPath k s")
  case False
  with p inv show ?thesis by (simp add: purge_fast)
next
  case True
  let ?z = "resizeAndClear (len (activeMatching s)) (activeMatching s)"
  from p True obtain am' where
    inc: "incEntries (survivors k (allEntries s)) ?z = Inr am'" and
    am: "activeMatching s' = am'"
    by (rule purge_slow_fields)
  have a: "allEntries s' = survivors k (allEntries s)"
    using purge_allEntries [OF p] True by simp
  have z: "len ?z \<le> cap ?z" by (simp add: cap_def)
  have "elems am' ! j = countMatching j (allEntries s')" if "j < len am'" for j
  proof -
    from that incEntries_shape [OF inc] have j: "j < len ?z" by simp
    from incEntries_elems [OF inc z j] j show ?thesis by (simp add: a)
  qed
  then show ?thesis by (simp add: I2_def am)
qed

lemma purge_I3:
  assumes p: "purge k s = Inr s'" and inv: "slowPath k s \<or> I3 s"
  shows "I3 s'"
proof (cases "slowPath k s")
  case False
  with p inv show ?thesis by (simp add: purge_fast)
next
  case True
  have a: "allEntries s' = survivors k (allEntries s)"
    using purge_allEntries [OF p] True by simp
  show ?thesis
    unfolding I3_def a purge_oldest [OF p True]
    by (simp add: lowest_lower)
qed

lemma purgedRefs_nonempty: "[] \<notin> snd ` set (purgedRefs k rs)"
  by (auto simp: purgedRefs_def)

lemma purge_I4:
  assumes p: "purge k s = Inr s'" and inv: "slowPath k s \<or> I4 s"
  shows "I4 s'"
proof (cases "slowPath k s")
  case False
  with p inv show ?thesis by (simp add: purge_fast)
next
  case True
  from p True obtain am' where "refs s' = purgedRefs k (refs s)"
    by (rule purge_slow_fields)
  then show ?thesis by (simp add: I4_def purgedRefs_nonempty)
qed

lemma reinitialize_fields [simp]:
  "oldestEntryTs (reinitialize asm s) = 0"
  "refs (reinitialize asm s) = []"
  "active (reinitialize asm s) = 0"
  "smatchers (reinitialize asm s) = asm"
  "activeMatching (reinitialize asm s) = resizeAndClear (length asm) (activeMatching s)"
  "allEntries (reinitialize asm s) = []"
  by (simp_all add: reinitialize_def MatcherNames_def allEntries_def)

lemma reinitialize_inv:
  "stripe_wf (reinitialize asm s)" "I1 (reinitialize asm s)" "I2 (reinitialize asm s)"
  "I3 (reinitialize asm s)" "I4 (reinitialize asm s)"
  by (simp_all add: stripe_wf_def I1_def I2_def I3_def I4_def cap_def MatcherNames_def)

subsection \<open>The tracker\<close>

lemma stripeID_lt: "stripeID fp < numActiveSeriesStripes"
proof -
  have "fp mod 512 < 512" by (rule word_mod_less_divisor) simp
  then have "unat (fp mod 512) < unat (512 :: fingerprint)" by (simp only: word_less_nat_alt)
  then show ?thesis by (simp add: stripeID_def numActiveSeriesStripes_def)
qed

lemma UpdateSeries_cases:
  assumes "UpdateSeries hash series now lc c = Inr c'"
  obtains s' where
    "updateSeriesTimestamp now series (hash series) lc (stripes c ! stripeID (hash series)) = Inr s'"
    "c' = c\<lparr>stripes := (stripes c)[stripeID (hash series) := s']\<rparr>"
  using assms by (auto simp: UpdateSeries_def Let_def split: sum.splits)

lemma stripe_in_tracker:
  "length (stripes c) = numActiveSeriesStripes \<Longrightarrow> stripes c ! stripeID fp \<in> set (stripes c)"
  using stripeID_lt [of fp] by simp

lemma UpdateSeries_ok:
  assumes "tracker_wf c"
  shows "\<exists>c'. UpdateSeries hash series now lc c = Inr c'"
proof -
  from assms have "stripe_wf (stripes c ! stripeID (hash series))"
    using stripe_in_tracker [of c "hash series"] by (simp add: tracker_wf_def)
  from update_ok [OF this, of now series "hash series" lc] show ?thesis
    by (auto simp: UpdateSeries_def)
qed

text \<open>A property of stripes that the stripe operation keeps is kept in every stripe.\<close>

lemma UpdateSeries_stripes:
  assumes u: "UpdateSeries hash series now lc c = Inr c'"
    and all: "\<forall>s \<in> set (stripes c). P s"
    and len: "length (stripes c) = numActiveSeriesStripes"
    and step: "\<And>s s'. updateSeriesTimestamp now series (hash series) lc s = Inr s' \<Longrightarrow> P s \<Longrightarrow> P s'"
  shows "\<forall>s \<in> set (stripes c'). P s"
proof -
  from u obtain s' where
    s': "updateSeriesTimestamp now series (hash series) lc (stripes c ! stripeID (hash series)) = Inr s'"
    and c': "c' = c\<lparr>stripes := (stripes c)[stripeID (hash series) := s']\<rparr>"
    by (rule UpdateSeries_cases)
  have "P s'" using s' by (rule step) (use all len stripe_in_tracker in blast)
  moreover have "set (stripes c') \<subseteq> insert s' (set (stripes c))"
    unfolding c' by (simp add: set_update_subset_insert)
  ultimately show ?thesis using all by blast
qed

lemma UpdateSeries_fields:
  assumes "UpdateSeries hash series now lc c = Inr c'"
  shows "length (stripes c') = length (stripes c)" "matchers c' = matchers c"
    "lastMatchersUpdate c' = lastMatchersUpdate c" "timeout c' = timeout c"
  using assms by (auto elim!: UpdateSeries_cases)

lemma UpdateSeries_wf:
  assumes u: "UpdateSeries hash series now lc c = Inr c'" and wf: "tracker_wf c"
  shows "tracker_wf c'"
proof -
  have "\<forall>s \<in> set (stripes c'). stripe_wf s \<and> smatchers s = matchers c"
    using u
  proof (rule UpdateSeries_stripes)
    show "\<forall>s \<in> set (stripes c). stripe_wf s \<and> smatchers s = matchers c"
      using wf by (simp add: tracker_wf_def)
    show "length (stripes c) = numActiveSeriesStripes" using wf by (simp add: tracker_wf_def)
  next
    fix s s'
    assume "updateSeriesTimestamp now series (hash series) lc s = Inr s'"
      "stripe_wf s \<and> smatchers s = matchers c"
    then show "stripe_wf s' \<and> smatchers s' = matchers c"
      using update_wf update_smatchers by metis
  qed
  with wf UpdateSeries_fields [OF u] show ?thesis by (simp add: tracker_wf_def)
qed

lemma purgeAll_length: "purgeAll k ss = Inr ss' \<Longrightarrow> length ss' = length ss"
  by (induction ss arbitrary: ss') (auto split: sum.splits)

lemma purgeAll_nth:
  "purgeAll k ss = Inr ss' \<Longrightarrow> i < length ss \<Longrightarrow> purge k (ss ! i) = Inr (ss' ! i)"
proof (induction ss arbitrary: ss' i)
  case Nil
  then show ?case by simp
next
  case (Cons s ss)
  then show ?case by (cases i) (auto split: sum.splits)
qed

lemma purgeAll_set:
  assumes "purgeAll k ss = Inr ss'" "s' \<in> set ss'"
  shows "\<exists>s \<in> set ss. purge k s = Inr s'"
proof -
  from assms(2) obtain i where i: "i < length ss'" "s' = ss' ! i"
    by (auto simp: in_set_conv_nth)
  with purgeAll_length [OF assms(1)] purgeAll_nth [OF assms(1), of i] show ?thesis
    by (metis nth_mem)
qed

lemma purgeAll_ok:
  "\<forall>s \<in> set ss. \<exists>s'. purge k s = Inr s' \<Longrightarrow> \<exists>ss'. purgeAll k ss = Inr ss'"
  by (induction ss) auto

lemma totalLoop_shape:
  "totalLoop ss tot tm = Inr (tot', tm') \<Longrightarrow>
   tot' = tot + (\<Sum>s \<leftarrow> ss. active s) \<and> len tm' = len tm \<and> length (arr tm') = length (arr tm)"
proof (induction ss arbitrary: tot tm)
  case Nil
  then show ?case by simp
next
  case (Cons s ss)
  from Cons.prems obtain m where
    a: "addMatching 0 (elems (activeMatching s)) tm = Inr m" and
    t: "totalLoop ss (tot + active s) m = Inr (tot', tm')"
    by (auto simp: getTotalAndUpdateMatching_def split: sum.splits)
  from Cons.IH [OF t] addMatching_shape [OF a] show ?case by simp
qed

lemma totalLoop_nth:
  "totalLoop ss tot tm = Inr (tot', tm') \<Longrightarrow> j < length (arr tm) \<Longrightarrow>
   arr tm' ! j = arr tm ! j +
     (\<Sum>s \<leftarrow> ss. if j < length (elems (activeMatching s)) then elems (activeMatching s) ! j else 0)"
proof (induction ss arbitrary: tot tm)
  case Nil
  then show ?case by simp
next
  case (Cons s ss)
  from Cons.prems obtain m where
    a: "addMatching 0 (elems (activeMatching s)) tm = Inr m" and
    t: "totalLoop ss (tot + active s) m = Inr (tot', tm')"
    by (auto simp: getTotalAndUpdateMatching_def split: sum.splits)
  from addMatching_shape [OF a] Cons.prems(2) have j: "j < length (arr m)" by simp
  from Cons.IH [OF t j] addMatching_nth [OF a Cons.prems(2)] show ?case by simp
qed

lemma totalLoop_ok:
  "\<forall>s \<in> set ss. length (elems (activeMatching s)) \<le> len tm \<Longrightarrow> \<exists>r. totalLoop ss tot tm = Inr r"
proof (induction ss arbitrary: tot tm)
  case Nil
  then show ?case by simp
next
  case (Cons s ss)
  then obtain m where a: "addMatching 0 (elems (activeMatching s)) tm = Inr m"
    using addMatching_ok [of 0 "elems (activeMatching s)" tm] by auto
  with Cons.prems addMatching_shape [OF a] Cons.IH [of m "tot + active s"] show ?case
    by (auto simp: getTotalAndUpdateMatching_def)
qed

lemma Active_cases:
  assumes "Active now c = Inr (c', tot, tm, valid)"
  obtains ss where
    "purgeAll (cutoffNanos now (timeout c)) (stripes c) = Inr ss"
    "c' = c\<lparr>stripes := ss\<rparr>"
    "totalLoop ss 0 (resizeAndClear (length (matchers c)) nil_slice) = Inr (tot, tm)"
    "valid \<longleftrightarrow> now + negDuration (timeout c) > lastMatchersUpdate c"
  using assms by (auto simp: Active_def Let_def MatcherNames_def cutoffNanos_def split: sum.splits)

lemma purgeAll_wf:
  assumes p: "purgeAll k ss = Inr ss'" and wf: "\<forall>s \<in> set ss. stripe_wf s \<and> smatchers s = m"
  shows "\<forall>s \<in> set ss'. stripe_wf s \<and> smatchers s = m"
proof
  fix s' assume "s' \<in> set ss'"
  with purgeAll_set [OF p] obtain s where "s \<in> set ss" "purge k s = Inr s'" by blast
  with wf purge_wf purge_smatchers show "stripe_wf s' \<and> smatchers s' = m" by metis
qed

lemma Active_ok:
  assumes wf: "\<forall>s \<in> set (stripes c). stripe_wf s \<and> smatchers s = matchers c"
  shows "\<exists>c' tot tm.
           Active now c = Inr (c', tot, tm, now + negDuration (timeout c) > lastMatchersUpdate c)"
proof -
  let ?k = "cutoffNanos now (timeout c)"
  have "\<forall>s \<in> set (stripes c). \<exists>s'. purge ?k s = Inr s'"
    using wf purge_ok by (simp add: stripe_wf_def)
  from purgeAll_ok [OF this] obtain ss where p: "purgeAll ?k (stripes c) = Inr ss" by blast
  have "\<forall>s \<in> set ss. stripe_wf s \<and> smatchers s = matchers c"
    using p wf by (rule purgeAll_wf)
  then have "\<forall>s \<in> set ss. length (elems (activeMatching s)) \<le>
      len (resizeAndClear (length (matchers c)) nil_slice)"
    by (simp add: stripe_wf_def elems_def MatcherNames_def)
  from totalLoop_ok [OF this, of 0] obtain tot tm where
    "totalLoop ss 0 (resizeAndClear (length (matchers c)) nil_slice) = Inr (tot, tm)" by force
  with p show ?thesis by (simp add: Active_def MatcherNames_def cutoffNanos_def)
qed

lemma tracker_wf_stripes:
  "tracker_wf c \<Longrightarrow> \<forall>s \<in> set (stripes c). stripe_wf s \<and> smatchers s = matchers c"
  by (simp add: tracker_wf_def)

lemma Active_wf:
  assumes a: "Active now c = Inr (c', tot, tm, valid)" and wf: "tracker_wf c"
  shows "tracker_wf c'"
proof -
  from a obtain ss where p: "purgeAll (cutoffNanos now (timeout c)) (stripes c) = Inr ss"
    and c': "c' = c\<lparr>stripes := ss\<rparr>"
    by (rule Active_cases)
  have "\<forall>s \<in> set ss. stripe_wf s \<and> smatchers s = matchers c"
    using p by (rule purgeAll_wf) (use wf in \<open>simp add: tracker_wf_def\<close>)
  with wf purgeAll_length [OF p] show ?thesis by (simp add: tracker_wf_def c')
qed

lemma allStripesI: "(\<And>s. s \<in> set (stripes c) \<Longrightarrow> P s) \<Longrightarrow> allStripes P c"
  by (simp add: allStripes_def)

lemma allStripesD: "allStripes P c \<Longrightarrow> s \<in> set (stripes c) \<Longrightarrow> P s"
  by (simp add: allStripes_def)

lemma New_stripes:
  "s \<in> set (stripes (NewActiveSeries asm t)) \<Longrightarrow>
   s = \<lparr>smatchers = asm, oldestEntryTs = 0, refs = [], active = 0,
        activeMatching = resizeAndClear (length asm) nil_slice\<rparr>"
  by (auto simp: NewActiveSeries_def MatcherNames_def)

lemma New_wf: "tracker_wf (NewActiveSeries asm t)"
proof -
  have "stripe_wf s \<and> smatchers s = asm" if "s \<in> set (stripes (NewActiveSeries asm t))" for s
    unfolding New_stripes [OF that]
    by (simp add: stripe_wf_def cap_def allEntries_def MatcherNames_def)
  then show ?thesis
    by (simp add: tracker_wf_def) (simp add: NewActiveSeries_def)
qed

lemma New_inv:
  "allStripes I1 (NewActiveSeries asm t)" "allStripes I2 (NewActiveSeries asm t)"
  "allStripes I3 (NewActiveSeries asm t)" "allStripes I4 (NewActiveSeries asm t)"
  by (auto intro!: allStripesI dest!: New_stripes simp: I1_def I2_def I3_def I4_def allEntries_def)

lemma Reload_stripes:
  "s \<in> set (stripes (ReloadMatchers asm now c)) \<Longrightarrow> \<exists>s0. s = reinitialize asm s0"
  by (auto simp: ReloadMatchers_def)

lemma Reload_wf:
  assumes "length (stripes c) = numActiveSeriesStripes"
  shows "tracker_wf (ReloadMatchers asm now c)"
proof -
  have "stripe_wf s \<and> smatchers s = asm" if "s \<in> set (stripes (ReloadMatchers asm now c))" for s
    using Reload_stripes [OF that] by (auto simp: reinitialize_inv)
  then show ?thesis
    using assms by (simp add: tracker_wf_def) (simp add: ReloadMatchers_def)
qed

lemma Reload_inv:
  "allStripes I1 (ReloadMatchers asm now c)" "allStripes I2 (ReloadMatchers asm now c)"
  "allStripes I3 (ReloadMatchers asm now c)" "allStripes I4 (ReloadMatchers asm now c)"
  by (auto intro!: allStripesI dest!: Reload_stripes simp: reinitialize_inv)

lemma UpdateSeries_inv:
  assumes u: "UpdateSeries hash series now lc c = Inr c'" and wf: "tracker_wf c"
  shows "allStripes I1 c \<Longrightarrow> allStripes I1 c'"
    and "allStripes I2 c \<Longrightarrow> allStripes I2 c'"
    and "allStripes I3 c \<Longrightarrow> allStripes I3 c'"
    and "allStripes I4 c \<Longrightarrow> allStripes I4 c'"
proof -
  have len: "length (stripes c) = numActiveSeriesStripes" using wf by (simp add: tracker_wf_def)
  show "allStripes I1 c'" if "allStripes I1 c"
    unfolding allStripes_def using u
    by (rule UpdateSeries_stripes) (use that len update_I1 in \<open>auto simp: allStripes_def\<close>)
  show "allStripes I3 c'" if "allStripes I3 c"
    unfolding allStripes_def using u
    by (rule UpdateSeries_stripes) (use that len update_I3 in \<open>auto simp: allStripes_def\<close>)
  show "allStripes I4 c'" if "allStripes I4 c"
    unfolding allStripes_def using u
    by (rule UpdateSeries_stripes) (use that len update_I4 in \<open>auto simp: allStripes_def\<close>)
  show "allStripes I2 c'" if "allStripes I2 c"
  proof -
    have "\<forall>s \<in> set (stripes c'). stripe_wf s \<and> I2 s"
      using u
    proof (rule UpdateSeries_stripes)
      show "\<forall>s \<in> set (stripes c). stripe_wf s \<and> I2 s"
        using that wf by (simp add: allStripes_def tracker_wf_def)
      show "length (stripes c) = numActiveSeriesStripes" by (rule len)
    next
      fix s s'
      assume "updateSeriesTimestamp now series (hash series) lc s = Inr s'" "stripe_wf s \<and> I2 s"
      then show "stripe_wf s' \<and> I2 s'" using update_wf update_I2 by blast
    qed
    then show ?thesis by (simp add: allStripes_def)
  qed
qed

lemma Active_inv:
  assumes a: "Active now c = Inr (c', tot, tm, valid)"
  shows "allStripes I1 c \<Longrightarrow> allStripes I1 c'"
    and "allStripes I2 c \<Longrightarrow> allStripes I2 c'"
    and "allStripes I3 c \<Longrightarrow> allStripes I3 c'"
    and "allStripes I4 c \<Longrightarrow> allStripes I4 c'"
proof -
  from a obtain ss where p: "purgeAll (cutoffNanos now (timeout c)) (stripes c) = Inr ss"
    and c': "c' = c\<lparr>stripes := ss\<rparr>"
    by (rule Active_cases)
  have *: "\<exists>s \<in> set (stripes c). purge (cutoffNanos now (timeout c)) s = Inr s'" if "s' \<in> set (stripes c')" for s'
    using purgeAll_set [OF p] that by (simp add: c')
  show "allStripes I1 c'" if "allStripes I1 c"
    using that * purge_I1 by (fastforce simp: allStripes_def)
  show "allStripes I2 c'" if "allStripes I2 c"
    using that * purge_I2 by (fastforce simp: allStripes_def)
  show "allStripes I3 c'" if "allStripes I3 c"
    using that * purge_I3 by (fastforce simp: allStripes_def)
  show "allStripes I4 c'" if "allStripes I4 c"
    using that * purge_I4 by (fastforce simp: allStripes_def)
qed

lemma reachable_inv:
  assumes "reachable hash c"
  shows "tracker_wf c \<and> allStripes I1 c \<and> allStripes I2 c \<and> allStripes I3 c \<and> allStripes I4 c"
  using assms
proof (induction rule: reachable.induct)
  case (new asm idleTimeout)
  show ?case by (simp add: New_wf New_inv)
next
  case (update c series now labelsCopy c')
  then show ?case by (simp add: UpdateSeries_wf UpdateSeries_inv)
next
  case (active c now c' tot totalMatching valid)
  then show ?case by (simp add: Active_wf Active_inv)
next
  case (reload c asm now)
  then have "length (stripes c) = numActiveSeriesStripes" by (simp add: tracker_wf_def)
  then show ?case by (simp add: Reload_wf Reload_inv)
qed

lemma sum_list_zero: "(\<And>x. x \<in> set xs \<Longrightarrow> f x = (0::int)) \<Longrightarrow> sum_list (map f xs) = 0"
  by (induction xs) auto

lemma Active_result:
  assumes a: "Active now c = Inr (c', tot, tm, valid)"
    and wf: "\<forall>s \<in> set (stripes c). stripe_wf s \<and> smatchers s = matchers c"
  shows "tot = (\<Sum>s \<leftarrow> stripes c'. active s)"
    and "len tm = length (matchers c)"
    and "len tm \<le> cap tm"
    and "j < length (matchers c) \<Longrightarrow> elems tm ! j = (\<Sum>s \<leftarrow> stripes c'. elems (activeMatching s) ! j)"
proof -
  let ?z = "resizeAndClear (length (matchers c)) nil_slice"
  from a obtain ss where p: "purgeAll (cutoffNanos now (timeout c)) (stripes c) = Inr ss"
    and c': "c' = c\<lparr>stripes := ss\<rparr>"
    and t: "totalLoop ss 0 ?z = Inr (tot, tm)"
    by (rule Active_cases)
  from totalLoop_shape [OF t] show "tot = (\<Sum>s \<leftarrow> stripes c'. active s)"
    by (simp add: c')
  from totalLoop_shape [OF t] show l: "len tm = length (matchers c)" by simp
  have z: "len ?z \<le> length (arr ?z)" by simp
  with totalLoop_shape [OF t] show "len tm \<le> cap tm" by (simp add: cap_def)
  have wf': "\<forall>s \<in> set ss. stripe_wf s \<and> smatchers s = matchers c"
    using p wf by (rule purgeAll_wf)
  show "elems tm ! j = (\<Sum>s \<leftarrow> stripes c'. elems (activeMatching s) ! j)"
    if j: "j < length (matchers c)"
  proof -
    have ja: "j < length (arr ?z)"
      using j resizeAndClear_bound [of "length (matchers c)" nil_slice] by (rule less_le_trans)
    have zero: "arr ?z ! j = 0"
      using j resizeAndClear_elems [of "length (matchers c)" nil_slice]
      by (metis elems_def nth_replicate nth_take resizeAndClear_len)
    have "(if j < length (elems (activeMatching s)) then elems (activeMatching s) ! j else 0) =
        elems (activeMatching s) ! j" if "s \<in> set ss" for s
    proof -
      from wf' that have "len (activeMatching s) \<le> length (arr (activeMatching s))"
        "len (activeMatching s) = length (matchers c)"
        by (auto simp: stripe_wf_def cap_def MatcherNames_def)
      with j show ?thesis by (simp add: elems_def)
    qed
    then have "(\<Sum>s \<leftarrow> ss. if j < length (elems (activeMatching s)) then elems (activeMatching s) ! j else 0) =
        (\<Sum>s \<leftarrow> ss. elems (activeMatching s) ! j)"
      by (simp cong: map_cong)
    with totalLoop_nth [OF t ja] zero j l show ?thesis
      by (simp add: c' elems_def)
  qed
qed

lemma wrap64_id: "MinInt64 \<le> x \<Longrightarrow> x \<le> MaxInt64 \<Longrightarrow> wrap64 x = x"
  by (simp add: wrap64_def MinInt64_def MaxInt64_def)

lemma wrap64_range: "MinInt64 \<le> wrap64 x \<and> wrap64 x \<le> MaxInt64"
proof -
  have "0 \<le> (x + 9223372036854775808) mod 18446744073709551616"
    "(x + 9223372036854775808) mod 18446744073709551616 < 18446744073709551616"
    by simp_all
  then show ?thesis by (simp add: wrap64_def MinInt64_def MaxInt64_def)
qed

lemma negDuration_id: "MinInt64 < d \<Longrightarrow> d \<le> MaxInt64 \<Longrightarrow> negDuration d = - d"
  unfolding negDuration_def by (rule wrap64_id) (simp_all add: MinInt64_def MaxInt64_def)

lemma cutoffNanos_id:
  assumes "MinInt64 < idleTimeout" "idleTimeout \<le> MaxInt64"
    and "MinInt64 \<le> now - idleTimeout" "now - idleTimeout \<le> MaxInt64"
  shows "cutoffNanos now idleTimeout = now - idleTimeout"
  using assms by (simp add: cutoffNanos_def UnixNano_def negDuration_id wrap64_id)



subsection \<open>Reload\<close>

lemma Reload_fields [simp]:
  "matchers (ReloadMatchers asm t c) = asm"
  "lastMatchersUpdate (ReloadMatchers asm t c) = t"
  "timeout (ReloadMatchers asm t c) = timeout c"
  "stripes (ReloadMatchers asm t c) = map (reinitialize asm) (stripes c)"
  by (simp_all add: ReloadMatchers_def)

text \<open>
  Claim C6. Immediately after \<open>ReloadMatchers asm\<close>, whatever the tracker held before,
  every stripe is empty: no key, \<open>active = 0\<close>, \<open>oldestEntryTs = 0\<close> and an all-zero
  \<open>activeMatching\<close> with one cell per matcher of \<open>asm\<close>. A following \<open>Active\<close> returns the
  total 0 and an all-zero vector of that length.
\<close>

theorem ReloadMatchers_resets:
  "allStripes (\<lambda>s. refs s = [] \<and> active s = 0 \<and> oldestEntryTs s = 0 \<and>
                   len (activeMatching s) = length (MatcherNames asm) \<and>
                   elems (activeMatching s) = replicate (length (MatcherNames asm)) 0)
     (ReloadMatchers asm t c) \<and>
   (\<exists>c' totalMatching valid.
      Active now (ReloadMatchers asm t c) = Inr (c', 0, totalMatching, valid) \<and>
      len totalMatching = length (MatcherNames asm) \<and>
      elems totalMatching = replicate (length (MatcherNames asm)) 0)"
proof -
  let ?c = "ReloadMatchers asm t c"
  let ?n = "length asm"
  have st: "allStripes (\<lambda>s. refs s = [] \<and> active s = 0 \<and> oldestEntryTs s = 0 \<and>
                   len (activeMatching s) = ?n \<and> elems (activeMatching s) = replicate ?n 0) ?c"
    by (rule allStripesI) (auto dest!: Reload_stripes)
  have wf: "\<forall>s \<in> set (stripes ?c). stripe_wf s \<and> smatchers s = matchers ?c"
    by (auto simp: reinitialize_inv)
  from Active_ok [OF wf, of now] obtain c' tot tm valid where
    a: "Active now ?c = Inr (c', tot, tm, valid)" by blast
  from a obtain ss where p: "purgeAll (cutoffNanos now (timeout ?c)) (stripes ?c) = Inr ss"
    and c': "c' = ?c\<lparr>stripes := ss\<rparr>"
    by (rule Active_cases)
  have empty: "active s' = 0 \<and> (\<forall>j < ?n. elems (activeMatching s') ! j = 0)"
    if "s' \<in> set (stripes c')" for s'
  proof -
    from that purgeAll_set [OF p] obtain s0 where
      s: "purge (cutoffNanos now (timeout ?c)) (reinitialize asm s0) = Inr s'"
      by (auto simp: c')
    have e: "allEntries s' = []"
      using purge_allEntries [OF s] by (simp add: reinitialize_inv survivors_def)
    have "I1 s'" using s by (rule purge_I1) (simp add: reinitialize_inv)
    moreover have "I2 s'" using s by (rule purge_I2) (simp add: reinitialize_inv)
    moreover have "len (activeMatching s') = ?n"
      using purge_wf [OF s reinitialize_inv(1)] purge_smatchers [OF s]
      by (simp add: stripe_wf_def MatcherNames_def)
    ultimately show ?thesis by (simp add: I1_alt I2_def e)
  qed
  have tot: "tot = 0"
    unfolding Active_result(1) [OF a wf] by (rule sum_list_zero) (simp add: empty)
  have l: "len tm = ?n" "len tm \<le> cap tm"
    using Active_result(2,3) [OF a wf] by simp_all
  have "elems tm ! j = 0" if "j < ?n" for j
  proof -
    from that have "j < length (matchers ?c)" by simp
    from Active_result(4) [OF a wf this] have "elems tm ! j = (\<Sum>s \<leftarrow> stripes c'. elems (activeMatching s) ! j)" .
    also have "\<dots> = 0" by (rule sum_list_zero) (use that empty in simp)
    finally show ?thesis .
  qed
  then have "elems tm = replicate ?n 0"
    using l by (intro nth_equalityI) (simp_all add: elems_def cap_def)
  with st a tot l show ?thesis by (auto simp: MatcherNames_def)
qed

theorem ReloadMatchers_resets_witness:
  "allEntries (hd (stripes exTracker)) \<noteq> [] \<and>
   allStripes (\<lambda>s. refs s = [] \<and> active s = 0 \<and> oldestEntryTs s = 0 \<and>
                   len (activeMatching s) = 2 \<and> elems (activeMatching s) = [0, 0])
     (ReloadMatchers exMatchers2 7 exTracker) \<and>
   (\<exists>c' totalMatching valid.
      Active 8 (ReloadMatchers exMatchers2 7 exTracker) = Inr (c', 0, totalMatching, valid) \<and>
      len totalMatching = 2 \<and> elems totalMatching = [0, 0])"
proof -
  have n: "length (MatcherNames exMatchers2) = 2" "replicate 2 (0::int) = [0, 0]"
    by (simp_all add: MatcherNames_def exMatchers2_def eval_nat_numeral)
  have "allEntries (hd (stripes exTracker)) \<noteq> []"
    by (simp add: exTracker_def exStripe_def allEntries_def)
  with ReloadMatchers_resets [of exMatchers2 7 exTracker 8] show ?thesis
    unfolding n by simp
qed

subsection \<open>The counters and the hint over the life of a tracker\<close>

text \<open>
  Claim C3. In every state a tracker reaches, that is after every call of \<open>UpdateSeries\<close>
  and every call of \<open>Active\<close> (and of \<open>ReloadMatchers\<close>), each stripe satisfies (I1) and
  (I2): \<open>active\<close> is the sum of the chain lengths and \<open>activeMatching[i]\<close>, for each of the
  stripe's matchers, is the number of entries with \<open>matches[i]\<close> true. The calls
  themselves always return.
\<close>

theorem counters_hold:
  assumes "reachable hash c"
  shows "tracker_wf c \<and> allStripes I1 c \<and> allStripes I2 c \<and>
         (\<exists>c'. UpdateSeries hash series now labelsCopy c = Inr c') \<and>
         (\<exists>c' tot totalMatching valid. Active now' c = Inr (c', tot, totalMatching, valid))"
proof -
  from reachable_inv [OF assms] have wf: "tracker_wf c" and i: "allStripes I1 c" "allStripes I2 c"
    by simp_all
  from UpdateSeries_ok [OF wf] Active_ok [OF tracker_wf_stripes [OF wf]] wf i
  show ?thesis by blast
qed

text \<open>
  Claim C4. (I3) is preserved by every operation: when each stripe's \<open>oldestEntryTs\<close> is 0
  or at most every timestamp in the stripe, the same holds after \<open>UpdateSeries\<close>, after
  \<open>Active\<close> and its purge of every stripe (also after a purge with any other cutoff), and
  after \<open>ReloadMatchers\<close>.
\<close>

theorem oldest_hint_preserved:
  assumes "tracker_wf c" "allStripes I3 c"
  shows "(\<exists>c'. UpdateSeries hash series now labelsCopy c = Inr c' \<and> allStripes I3 c') \<and>
         (\<exists>c' tot totalMatching valid.
            Active now' c = Inr (c', tot, totalMatching, valid) \<and> allStripes I3 c') \<and>
         allStripes I3 (ReloadMatchers asm now'' c) \<and>
         (\<forall>s \<in> set (stripes c). \<exists>s'. purge keepUntil s = Inr s' \<and> I3 s')"
proof -
  from UpdateSeries_ok [OF assms(1)] obtain c1 where
    u: "UpdateSeries hash series now labelsCopy c = Inr c1" by blast
  from Active_ok [OF tracker_wf_stripes [OF assms(1)]] obtain c2 tot tm valid where
    a: "Active now' c = Inr (c2, tot, tm, valid)" by blast
  have "\<exists>s'. purge keepUntil s = Inr s' \<and> I3 s'" if "s \<in> set (stripes c)" for s
  proof -
    from that assms have "stripe_wf s" "I3 s" by (simp_all add: tracker_wf_def allStripes_def)
    then show ?thesis using purge_ok [of s keepUntil] purge_I3 [of keepUntil s]
      by (auto simp: stripe_wf_def)
  qed
  with u a UpdateSeries_inv(3) [OF u assms] Active_inv(3) [OF a assms(2)] Reload_inv(3)
  show ?thesis by blast
qed

theorem oldest_hint_preserved_witness:
  "\<exists>c1 c2 tot totalMatching valid.
     UpdateSeries exHash [(''job'', ''a'')] 100 (\<lambda>l. l) (NewActiveSeries exMatchers 10) = Inr c1 \<and>
     Active 105 c1 = Inr (c2, tot, totalMatching, valid) \<and>
     tracker_wf c2 \<and> allStripes I3 c2 \<and>
     (\<exists>c'. UpdateSeries exHash [(''job'', ''b'')] 90 (\<lambda>l. l) c2 = Inr c' \<and> allStripes I3 c') \<and>
     (\<exists>c' tot totalMatching valid.
        Active 200 c2 = Inr (c', tot, totalMatching, valid) \<and> allStripes I3 c') \<and>
     allStripes I3 (ReloadMatchers exMatchers2 7 c2)"
proof -
  let ?c0 = "NewActiveSeries exMatchers 10"
  have r0: "reachable exHash ?c0" by (rule reachable.new)
  from UpdateSeries_ok [OF New_wf] obtain c1 where
    u1: "UpdateSeries exHash [(''job'', ''a'')] 100 (\<lambda>l. l) ?c0 = Inr c1" by blast
  have r1: "reachable exHash c1" using r0 u1 by (rule reachable.update)
  from reachable_inv [OF r1] have "tracker_wf c1" by simp
  from Active_ok [OF tracker_wf_stripes [OF this]] obtain c2 tot tm valid where
    a: "Active 105 c1 = Inr (c2, tot, tm, valid)" by blast
  have r2: "reachable exHash c2" using r1 a by (rule reachable.active)
  from reachable_inv [OF r2] have wf: "tracker_wf c2" and i3: "allStripes I3 c2" by simp_all
  from oldest_hint_preserved [OF wf i3, of exHash "[(''job'', ''b'')]" 90 "\<lambda>l. l" 200 exMatchers2 7]
    u1 a wf i3
  show ?thesis by blast
qed

subsection \<open>The stored timestamp\<close>

lemma update_stored_hit:
  assumes "stripeNanos fp series s = Some prev"
  shows "\<exists>s'. updateSeriesTimestamp now series fp lc s = Inr s' \<and>
           stripeNanos fp series s' = Some (max prev now)"
proof -
  let ?c = "chainOf fp s"
  from assms obtain i where f: "findIn series ?c = Some i" and prev: "prev = nanos (?c ! i)"
    by (auto simp: stripeNanos_def)
  from findIn_Some [OF f] have i: "i < length ?c" by simp
  show ?thesis
  proof (cases "prev < now")
    case False
    with f prev assms show ?thesis by (simp add: update_hit max_def)
  next
    case True
    let ?v = "?c[i := (?c ! i)\<lparr>nanos := now\<rparr>]"
    let ?s' = "(storeNanos fp i now s)
        \<lparr>oldestEntryTs := (if now < oldestEntryTs s then 0 else oldestEntryTs s)\<rparr>"
    have u: "updateSeriesTimestamp now series fp lc s = Inr ?s'"
      using f True prev by (simp add: update_hit)
    have "refs ?s' = AList.update fp ?v (refs s)" by (simp add: storeNanos_def)
    then have "chainOf fp ?s' = ?v" by (rule chainOf_update(1))
    then have "stripeNanos fp series ?s' = Some now"
      using f i by (simp add: stripeNanos_def)
    with u True show ?thesis by (simp add: max_def)
  qed
qed

lemma update_stored_miss:
  assumes u: "updateSeriesTimestamp now series fp lc s = Inr s'"
    and none: "stripeNanos fp series s = None" and copy: "lc series = series"
  shows "stripeNanos fp series s' = Some now"
  using u
proof (cases rule: update_cases)
  case (same i)
  with none show ?thesis by (simp add: stripeNanos_def)
next
  case (advance i)
  with none show ?thesis by (simp add: stripeNanos_def)
next
  case (insert am)
  let ?e = "\<lparr>lbs = lc series, nanos = now, matches = Matches (smatchers s) series\<rparr>"
  have "refs s' = AList.update fp (chainOf fp s @ [?e]) (refs s)" by (simp add: insert(3))
  then have "chainOf fp s' = chainOf fp s @ [?e]" by (rule chainOf_update(1))
  moreover have "findIn series (chainOf fp s @ [?e]) = Some (length (chainOf fp s))"
    using insert(1) by (rule findIn_append_new) (simp add: copy)
  ultimately show ?thesis by (simp add: stripeNanos_def)
qed

lemma update_oldest:
  assumes "updateSeriesTimestamp now series fp lc s = Inr s'"
  shows "oldestEntryTs s' = oldestEntryTs s \<or> oldestEntryTs s' = 0"
  using assms by (cases rule: update_cases) simp_all

lemma update_again:
  assumes u: "updateSeriesTimestamp now series fp lc s = Inr s'"
    and ts: "stripeNanos fp series s' = Some ts" "now \<le> ts"
  shows "updateSeriesTimestamp now series fp lc s' = Inr s'"
proof -
  from ts obtain i where "findIn series (chainOf fp s') = Some i" "\<not> nanos (chainOf fp s' ! i) < now"
    by (auto simp: stripeNanos_def)
  then show ?thesis by (simp add: update_hit)
qed

lemma update_stored:
  assumes u: "updateSeriesTimestamp now series fp lc s = Inr s'" and copy: "lc series = series"
  shows "\<exists>ts. stripeNanos fp series s' = Some ts \<and> now \<le> ts"
proof (cases "stripeNanos fp series s")
  case None
  from update_stored_miss [OF u None copy] show ?thesis by simp
next
  case (Some prev)
  from update_stored_hit [OF Some, of now lc] u show ?thesis by auto
qed

lemma storedNanos_stripe:
  "storedNanos hash c series = stripeNanos (hash series) series (stripes c ! stripeID (hash series))"
  by (simp add: storedNanos_def stripeNanos_def findEntryForSeries_def Let_def)

lemma UpdateSeries_stripe:
  assumes len: "length (stripes c) = numActiveSeriesStripes"
    and u: "updateSeriesTimestamp now series (hash series) lc (stripes c ! stripeID (hash series)) = Inr s'"
  shows "\<exists>c'. UpdateSeries hash series now lc c = Inr c' \<and>
           stripes c' ! stripeID (hash series) = s' \<and>
           length (stripes c') = numActiveSeriesStripes \<and>
           (s' = stripes c ! stripeID (hash series) \<longrightarrow> c' = c)"
  using u len stripeID_lt [of "hash series"] by (simp add: UpdateSeries_def)

lemma oldestOf_stripe: "oldestOf hash c series = oldestEntryTs (stripes c ! stripeID (hash series))"
  by (simp add: oldestOf_def)

text \<open>One call of \<open>UpdateSeries\<close>, seen from the series it is for.\<close>

lemma UpdateSeries_stored:
  assumes wf: "tracker_wf c" and copy: "lc series = series"
  shows "\<exists>c'. UpdateSeries hash series now lc c = Inr c' \<and> tracker_wf c' \<and>
           storedNanos hash c' series =
             Some (case storedNanos hash c series of None \<Rightarrow> now | Some prev \<Rightarrow> max prev now) \<and>
           (oldestOf hash c' series = oldestOf hash c series \<or> oldestOf hash c' series = 0) \<and>
           ((\<exists>prev. storedNanos hash c series = Some prev \<and> now \<le> prev) \<longrightarrow> c' = c)"
proof -
  let ?fp = "hash series"
  let ?s = "stripes c ! stripeID ?fp"
  from wf have len: "length (stripes c) = numActiveSeriesStripes" by (simp add: tracker_wf_def)
  with wf have "stripe_wf ?s" using stripe_in_tracker [of c ?fp] by (simp add: tracker_wf_def)
  from update_ok [OF this] obtain s' where
    u: "updateSeriesTimestamp now series ?fp lc ?s = Inr s'" by blast
  from UpdateSeries_stripe [where hash = hash and series = series, OF len u] obtain c' where
    c': "UpdateSeries hash series now lc c = Inr c'" "stripes c' ! stripeID ?fp = s'"
      "s' = ?s \<longrightarrow> c' = c"
    by blast
  have st: "stripeNanos ?fp series s' =
      Some (case stripeNanos ?fp series ?s of None \<Rightarrow> now | Some prev \<Rightarrow> max prev now)"
  proof (cases "stripeNanos ?fp series ?s")
    case None
    with update_stored_miss [OF u None copy] show ?thesis by simp
  next
    case (Some prev)
    with update_stored_hit [OF Some, of now lc] u show ?thesis by simp
  qed
  have same: "c' = c" if "stripeNanos ?fp series ?s = Some prev" "now \<le> prev" for prev
  proof -
    from that obtain i where "findIn series (chainOf ?fp ?s) = Some i"
      "\<not> nanos (chainOf ?fp ?s ! i) < now"
      by (auto simp: stripeNanos_def)
    then have "updateSeriesTimestamp now series ?fp lc ?s = Inr ?s" by (simp add: update_hit)
    with u c'(3) show ?thesis by simp
  qed
  from c' st same update_oldest [OF u] UpdateSeries_wf [OF c'(1) wf] show ?thesis
    by (auto simp: storedNanos_stripe oldestOf_stripe)
qed

text \<open>
  Claim C5. A call of \<open>UpdateSeries\<close> for a series that has an entry leaves
  \<open>max previous now\<close> as its stored timestamp. So after \<open>UpdateSeries\<close> at \<open>t1\<close> and then at
  \<open>t2\<close> the stored timestamp is at least \<open>t2\<close> when \<open>t1 < t2\<close>; when the clock ran
  backward (\<open>t2 < t1\<close>) the second call changes nothing, so the stored timestamp stays at
  least \<open>t1\<close>, and the stripe's \<open>oldestEntryTs\<close> is what it was before the two calls or 0:
  if it was at least \<open>t1\<close> it still is, or it has been reset to 0.
\<close>

theorem stored_timestamp_max:
  assumes "tracker_wf c" "labelsCopy series = series"
  shows "(\<forall>prev. storedNanos hash c series = Some prev \<longrightarrow>
            (\<exists>c'. UpdateSeries hash series now labelsCopy c = Inr c' \<and>
                  storedNanos hash c' series = Some (max prev now))) \<and>
         (\<exists>c1 c2 ts1 ts2.
            UpdateSeries hash series t1 labelsCopy c = Inr c1 \<and>
            UpdateSeries hash series t2 labelsCopy c1 = Inr c2 \<and>
            storedNanos hash c1 series = Some ts1 \<and> t1 \<le> ts1 \<and>
            (storedNanos hash c series = None \<longrightarrow> ts1 = t1) \<and>
            storedNanos hash c2 series = Some ts2 \<and> ts2 = max ts1 t2 \<and>
            (t1 < t2 \<longrightarrow> t2 \<le> ts2) \<and>
            (t2 < t1 \<longrightarrow> t1 \<le> ts2 \<and> c2 = c1) \<and>
            (oldestOf hash c2 series = oldestOf hash c series \<or> oldestOf hash c2 series = 0) \<and>
            (t1 \<le> oldestOf hash c series \<longrightarrow>
               t1 \<le> oldestOf hash c2 series \<or> oldestOf hash c2 series = 0))"
proof -
  have first: "\<exists>c'. UpdateSeries hash series now labelsCopy c = Inr c' \<and>
      storedNanos hash c' series = Some (max prev now)"
    if "storedNanos hash c series = Some prev" for prev
    using UpdateSeries_stored [where lc = labelsCopy and series = series and hash = hash
        and now = now, OF assms] that by auto
  from UpdateSeries_stored [where lc = labelsCopy and series = series and hash = hash
      and now = t1, OF assms] obtain c1 where
    u1: "UpdateSeries hash series t1 labelsCopy c = Inr c1" and wf1: "tracker_wf c1" and
    s1: "storedNanos hash c1 series =
      Some (case storedNanos hash c series of None \<Rightarrow> t1 | Some prev \<Rightarrow> max prev t1)" and
    o1: "oldestOf hash c1 series = oldestOf hash c series \<or> oldestOf hash c1 series = 0"
    by blast
  define ts1 where "ts1 = (case storedNanos hash c series of None \<Rightarrow> t1 | Some prev \<Rightarrow> max prev t1)"
  have ts1: "storedNanos hash c1 series = Some ts1" "t1 \<le> ts1"
    "storedNanos hash c series = None \<longrightarrow> ts1 = t1"
    using s1 by (auto simp: ts1_def split: option.splits)
  from UpdateSeries_stored [where lc = labelsCopy and series = series and hash = hash
      and now = t2, OF wf1 assms(2)] ts1(1) obtain c2 where
    u2: "UpdateSeries hash series t2 labelsCopy c1 = Inr c2" and
    s2: "storedNanos hash c2 series = Some (max ts1 t2)" and
    o2: "oldestOf hash c2 series = oldestOf hash c1 series \<or> oldestOf hash c2 series = 0" and
    same: "t2 \<le> ts1 \<longrightarrow> c2 = c1"
    by auto
  have o: "oldestOf hash c2 series = oldestOf hash c series \<or> oldestOf hash c2 series = 0"
    using o1 o2 by auto
  have "\<exists>c1 c2 ts1 ts2.
            UpdateSeries hash series t1 labelsCopy c = Inr c1 \<and>
            UpdateSeries hash series t2 labelsCopy c1 = Inr c2 \<and>
            storedNanos hash c1 series = Some ts1 \<and> t1 \<le> ts1 \<and>
            (storedNanos hash c series = None \<longrightarrow> ts1 = t1) \<and>
            storedNanos hash c2 series = Some ts2 \<and> ts2 = max ts1 t2 \<and>
            (t1 < t2 \<longrightarrow> t2 \<le> ts2) \<and>
            (t2 < t1 \<longrightarrow> t1 \<le> ts2 \<and> c2 = c1) \<and>
            (oldestOf hash c2 series = oldestOf hash c series \<or> oldestOf hash c2 series = 0) \<and>
            (t1 \<le> oldestOf hash c series \<longrightarrow>
               t1 \<le> oldestOf hash c2 series \<or> oldestOf hash c2 series = 0)"
    apply (rule exI [of _ c1], rule exI [of _ c2], rule exI [of _ ts1], rule exI [of _ "max ts1 t2"])
    using u1 u2 ts1 s2 same o by auto
  with first show ?thesis by blast
qed

lemma New_nth:
  "k < numActiveSeriesStripes \<Longrightarrow>
   stripes (NewActiveSeries asm t) ! k =
     \<lparr>smatchers = asm, oldestEntryTs = 0, refs = [], active = 0,
      activeMatching = resizeAndClear (length asm) nil_slice\<rparr>"
  by (simp add: NewActiveSeries_def MatcherNames_def)

lemma New_stored [simp]:
  "storedNanos hash (NewActiveSeries asm t) series = None"
  "oldestOf hash (NewActiveSeries asm t) series = 0"
  by (simp_all add: storedNanos_stripe oldestOf_stripe New_nth [OF stripeID_lt]
      stripeNanos_def chainOf_def)

theorem stored_timestamp_max_witness:
  "tracker_wf (NewActiveSeries exMatchers 10) \<and>
   storedNanos exHash (NewActiveSeries exMatchers 10) [(''job'', ''a'')] = None \<and>
   (\<exists>c1 c2.
      UpdateSeries exHash [(''job'', ''a'')] 100 (\<lambda>l. l) (NewActiveSeries exMatchers 10) = Inr c1 \<and>
      UpdateSeries exHash [(''job'', ''a'')] 110 (\<lambda>l. l) c1 = Inr c2 \<and>
      storedNanos exHash c1 [(''job'', ''a'')] = Some 100 \<and>
      storedNanos exHash c2 [(''job'', ''a'')] = Some 110) \<and>
   (\<exists>c1 c2.
      UpdateSeries exHash [(''job'', ''a'')] 100 (\<lambda>l. l) (NewActiveSeries exMatchers 10) = Inr c1 \<and>
      UpdateSeries exHash [(''job'', ''a'')] 90 (\<lambda>l. l) c1 = Inr c2 \<and>
      storedNanos exHash c1 [(''job'', ''a'')] = Some 100 \<and>
      storedNanos exHash c2 [(''job'', ''a'')] = Some 100 \<and> c2 = c1 \<and>
      oldestOf exHash c2 [(''job'', ''a'')] = 0)"
proof -
  let ?c0 = "NewActiveSeries exMatchers 10"
  let ?a = "[(''job'', ''a'')]"
  have wf: "tracker_wf ?c0" by (rule New_wf)
  have cp: "(\<lambda>l. l) ?a = ?a" by simp
  from stored_timestamp_max [where hash = exHash and series = ?a and labelsCopy = "\<lambda>l. l"
      and ?t1.0 = 100 and ?t2.0 = 110, OF wf cp, THEN conjunct2]
  obtain c1 c2 ts1 ts2 where
    "UpdateSeries exHash ?a 100 (\<lambda>l. l) ?c0 = Inr c1"
    "UpdateSeries exHash ?a 110 (\<lambda>l. l) c1 = Inr c2"
    "storedNanos exHash c1 ?a = Some ts1"
    "storedNanos exHash ?c0 ?a = None \<longrightarrow> ts1 = 100"
    "storedNanos exHash c2 ?a = Some ts2" "ts2 = max ts1 110"
    by (elim exE conjE) (rule that, assumption+)
  then have "\<exists>c1 c2.
      UpdateSeries exHash ?a 100 (\<lambda>l. l) ?c0 = Inr c1 \<and>
      UpdateSeries exHash ?a 110 (\<lambda>l. l) c1 = Inr c2 \<and>
      storedNanos exHash c1 ?a = Some 100 \<and> storedNanos exHash c2 ?a = Some 110"
    by (auto simp: New_stored)
  moreover
  from stored_timestamp_max [where hash = exHash and series = ?a and labelsCopy = "\<lambda>l. l"
      and ?t1.0 = 100 and ?t2.0 = 90, OF wf cp, THEN conjunct2]
  obtain d1 d2 ts1 ts2 where
    "UpdateSeries exHash ?a 100 (\<lambda>l. l) ?c0 = Inr d1"
    "UpdateSeries exHash ?a 90 (\<lambda>l. l) d1 = Inr d2"
    "storedNanos exHash d1 ?a = Some ts1"
    "storedNanos exHash ?c0 ?a = None \<longrightarrow> ts1 = 100"
    "storedNanos exHash d2 ?a = Some ts2" "ts2 = max ts1 90"
    "(90::int) < 100 \<longrightarrow> 100 \<le> ts2 \<and> d2 = d1"
    "oldestOf exHash d2 ?a = oldestOf exHash ?c0 ?a \<or> oldestOf exHash d2 ?a = 0"
    by (elim exE conjE) (rule that, (assumption | rule conjI | rule impI)+)
  then have "\<exists>c1 c2.
      UpdateSeries exHash ?a 100 (\<lambda>l. l) ?c0 = Inr c1 \<and>
      UpdateSeries exHash ?a 90 (\<lambda>l. l) c1 = Inr c2 \<and>
      storedNanos exHash c1 ?a = Some 100 \<and> storedNanos exHash c2 ?a = Some 100 \<and> c2 = c1 \<and>
      oldestOf exHash c2 ?a = 0"
    by (auto simp: New_stored)
  ultimately show ?thesis using wf by (simp add: New_stored)
qed

text \<open>
  Claim C8. \<open>UpdateSeries\<close> is idempotent at equal time: from every tracker state, a second
  call with the same labels and the same \<open>now\<close> returns the state the first call returned,
  with all its chains, timestamps, counters and hints. (\<open>labelsCopy\<close> returns a copy of the
  labels, as its contract says.)
\<close>

theorem UpdateSeries_idempotent:
  assumes "tracker_wf c" "labelsCopy series = series"
  shows "\<exists>c1. UpdateSeries hash series now labelsCopy c = Inr c1 \<and>
              UpdateSeries hash series now labelsCopy c1 = Inr c1"
proof -
  from UpdateSeries_stored [where lc = labelsCopy and series = series and hash = hash
      and now = now, OF assms] obtain c1 where
    u1: "UpdateSeries hash series now labelsCopy c = Inr c1" and wf1: "tracker_wf c1" and
    s1: "storedNanos hash c1 series =
      Some (case storedNanos hash c series of None \<Rightarrow> now | Some prev \<Rightarrow> max prev now)"
    by blast
  have "\<exists>prev. storedNanos hash c1 series = Some prev \<and> now \<le> prev"
    unfolding s1 by (simp split: option.splits)
  with UpdateSeries_stored [where lc = labelsCopy and series = series and hash = hash
      and now = now, OF wf1 assms(2)]
  have "UpdateSeries hash series now labelsCopy c1 = Inr c1" by auto
  with u1 show ?thesis by blast
qed

theorem UpdateSeries_idempotent_witness:
  "tracker_wf (NewActiveSeries exMatchers 10) \<and>
   (\<exists>c1. UpdateSeries exHash [(''job'', ''a'')] 100 (\<lambda>l. l) (NewActiveSeries exMatchers 10) = Inr c1 \<and>
         UpdateSeries exHash [(''job'', ''a'')] 100 (\<lambda>l. l) c1 = Inr c1 \<and>
         tracker_wf c1 \<and>
         (\<exists>c2. UpdateSeries exHash [(''job'', ''b'')] 50 (\<lambda>l. l) c1 = Inr c2 \<and>
               UpdateSeries exHash [(''job'', ''b'')] 50 (\<lambda>l. l) c2 = Inr c2))"
proof -
  let ?c0 = "NewActiveSeries exMatchers 10"
  have wf: "tracker_wf ?c0" by (rule New_wf)
  from UpdateSeries_idempotent [where hash = exHash and series = "[(''job'', ''a'')]"
      and labelsCopy = "\<lambda>l. l" and now = 100, OF wf]
  obtain c1 where
    u1: "UpdateSeries exHash [(''job'', ''a'')] 100 (\<lambda>l. l) ?c0 = Inr c1"
      "UpdateSeries exHash [(''job'', ''a'')] 100 (\<lambda>l. l) c1 = Inr c1"
    by auto
  have wf1: "tracker_wf c1" using u1(1) wf by (rule UpdateSeries_wf)
  from UpdateSeries_idempotent [where hash = exHash and series = "[(''job'', ''b'')]"
      and labelsCopy = "\<lambda>l. l" and now = 50, OF wf1]
  obtain c2 where
    "UpdateSeries exHash [(''job'', ''b'')] 50 (\<lambda>l. l) c1 = Inr c2"
    "UpdateSeries exHash [(''job'', ''b'')] 50 (\<lambda>l. l) c2 = Inr c2"
    by auto
  with u1 wf wf1 show ?thesis by blast
qed

subsection \<open>Counting the series\<close>

lemma seriesIn_labels:
  assumes "seriesIn hash asm tmin L s"
  shows "lbs ` set (allEntries s) = L"
proof -
  from assms have fin: "finite L" and eq: "image_mset lbs (mset (allEntries s)) = mset_set L"
    by (simp_all add: seriesIn_def)
  have "lbs ` set (allEntries s) = set_mset (image_mset lbs (mset (allEntries s)))" by simp
  also have "\<dots> = set_mset (mset_set L)" by (simp only: eq)
  also have "\<dots> = L" using fin by simp
  finally show ?thesis .
qed

lemma chainOf_placed:
  assumes "\<forall>(fp, es) \<in> set (refs s). \<forall>e \<in> set es. hash (lbs e) = fp" "e \<in> set (chainOf fp s)"
  shows "hash (lbs e) = fp"
proof (cases "map_of (refs s) fp")
  case None
  with assms(2) show ?thesis by (simp add: chainOf_def)
next
  case (Some es)
  then have "(fp, es) \<in> set (refs s)" by (rule map_of_SomeD)
  with assms Some show ?thesis by (auto simp: chainOf_def)
qed

text \<open>A series of the stripe is found in the chain of its fingerprint.\<close>

lemma seriesIn_found:
  assumes sI: "seriesIn hash asm tmin L s" and d: "distinct (map fst (refs s))"
    and l: "series \<in> L"
  shows "findIn series (chainOf (hash series) s) \<noteq> None"
proof -
  from seriesIn_labels [OF sI] l obtain e where e: "e \<in> set (allEntries s)" "lbs e = series"
    by auto
  then obtain fp es where p: "(fp, es) \<in> set (refs s)" "e \<in> set es"
    by (auto simp: allEntries_def)
  with sI e have "fp = hash series" by (auto simp: seriesIn_def)
  with p d have "chainOf (hash series) s = es" by (simp add: chainOf_def)
  with p e show ?thesis by (auto simp: findIn_None_iff)
qed

lemma pairs_update: "set (AList.update fp v rs) \<subseteq> insert (fp, v) (set rs)"
  by (induction rs) auto

lemma update_seriesIn:
  assumes u: "updateSeriesTimestamp now series (hash series) lc s = Inr s'"
    and wf: "stripe_wf s" and sm: "smatchers s = asm"
    and sI: "seriesIn hash asm tmin L s"
    and copy: "lc series = series" and tmin: "tmin \<le> now"
  shows "seriesIn hash asm tmin (insert series L) s'"
proof -
  let ?fp = "hash series"
  let ?c = "chainOf ?fp s"
  from sI have fin: "finite L"
    and lab: "image_mset lbs (mset (allEntries s)) = mset_set L"
    and placed: "\<forall>(fp, es) \<in> set (refs s). \<forall>e \<in> set es. hash (lbs e) = fp"
    and ent: "\<forall>e \<in> set (allEntries s). matches e = Matches asm (lbs e) \<and> tmin \<le> nanos e"
    by (simp_all add: seriesIn_def)
  from wf have d: "distinct (map fst (refs s))" by (simp add: stripe_wf_def)
  have known: "series \<in> L" if "findIn series ?c = Some i" for i
  proof -
    from findIn_Some [OF that] have "?c ! i \<in> set (allEntries s)" "lbs (?c ! i) = series"
      using chainOf_subset [of ?fp s] by auto
    with seriesIn_labels [OF sI] show ?thesis by (metis imageI)
  qed
  text \<open>What a change of the chain at \<open>?fp\<close> to \<open>v\<close> needs to keep the last two parts.\<close>
  have keep: "(\<forall>(fp, es) \<in> set (refs s'). \<forall>e \<in> set es. hash (lbs e) = fp) \<and>
      (\<forall>e \<in> set (allEntries s'). matches e = Matches asm (lbs e) \<and> tmin \<le> nanos e)"
    if r: "refs s' = AList.update ?fp v (refs s)"
      and v: "\<forall>e \<in> set v. hash (lbs e) = ?fp \<and> matches e = Matches asm (lbs e) \<and> tmin \<le> nanos e"
    for v
  proof -
    have "set (refs s') \<subseteq> insert (?fp, v) (set (refs s))"
      unfolding r by (rule pairs_update)
    with placed v have "\<forall>(fp, es) \<in> set (refs s'). \<forall>e \<in> set es. hash (lbs e) = fp"
      by fastforce
    moreover from entries_update_set [OF r] ent v
    have "\<forall>e \<in> set (allEntries s'). matches e = Matches asm (lbs e) \<and> tmin \<le> nanos e"
      by blast
    ultimately show ?thesis by simp
  qed
  from u show ?thesis
  proof (cases rule: update_cases)
    case (same i)
    from known [OF same(1)] have "insert series L = L" by auto
    with sI same(3) show ?thesis by simp
  next
    case (advance i)
    let ?v = "?c[i := (?c ! i)\<lparr>nanos := now\<rparr>]"
    have r: "refs s' = AList.update ?fp ?v (refs s)" by (simp add: advance(3))
    from known [OF advance(1)] have L: "insert series L = L" by auto
    from findIn_Some [OF advance(1)] have i: "i < length ?c" by simp
    have "image_mset lbs (mset ?v) = image_mset lbs (mset ?c)"
      using map_update_nanos [of ?c i now] by (metis mset_map)
    with entries_update_mset [OF r, THEN arg_cong [where f = "image_mset lbs"]]
    have lab': "image_mset lbs (mset (allEntries s')) = mset_set L"
      by (simp add: lab)
    have "\<forall>e \<in> set ?v. hash (lbs e) = ?fp \<and> matches e = Matches asm (lbs e) \<and> tmin \<le> nanos e"
    proof
      fix e assume "e \<in> set ?v"
      then have "e \<in> set ?c \<or> e = (?c ! i)\<lparr>nanos := now\<rparr>"
        using set_update_subset_insert [of ?c i] by blast
      moreover have "?c ! i \<in> set ?c" using i by simp
      ultimately show "hash (lbs e) = ?fp \<and> matches e = Matches asm (lbs e) \<and> tmin \<le> nanos e"
        using chainOf_placed [OF placed, of _ ?fp] chainOf_subset [of ?fp s] ent tmin
        by auto
    qed
    from keep [OF r this] lab' fin show ?thesis by (simp add: seriesIn_def L)
  next
    case (insert am)
    let ?e = "\<lparr>lbs = lc series, nanos = now, matches = Matches (smatchers s) series\<rparr>"
    have r: "refs s' = AList.update ?fp (?c @ [?e]) (refs s)" by (simp add: insert(3))
    have new: "series \<notin> L"
      using seriesIn_found [OF sI d] insert(1) by blast
    from entries_update_mset [OF r, THEN arg_cong [where f = "image_mset lbs"]]
    have "image_mset lbs (mset (allEntries s')) = add_mset series (mset_set L)"
      by (simp add: lab copy)
    with new fin have lab': "image_mset lbs (mset (allEntries s')) = mset_set (insert series L)"
      by simp
    have "\<forall>e \<in> set (?c @ [?e]). hash (lbs e) = ?fp \<and> matches e = Matches asm (lbs e) \<and> tmin \<le> nanos e"
      using chainOf_placed [OF placed, of _ ?fp] chainOf_subset [of ?fp s] ent tmin
      by (auto simp: copy sm)
    from keep [OF r this] lab' fin show ?thesis by (simp add: seriesIn_def)
  qed
qed

lemma seriesIn_count:
  assumes sI: "seriesIn hash asm tmin L s"
  shows "int (length (allEntries s)) = int (card L)"
    and "j < length asm \<Longrightarrow> countMatching j (allEntries s) = int (card {l \<in> L. Matches asm l ! j})"
proof -
  from sI have fin: "finite L"
    and lab: "image_mset lbs (mset (allEntries s)) = mset_set L"
    and ent: "\<forall>e \<in> set (allEntries s). matches e = Matches asm (lbs e)"
    by (simp_all add: seriesIn_def)
  have "size (image_mset lbs (mset (allEntries s))) = size (mset_set L)"
    by (simp only: lab)
  then show "int (length (allEntries s)) = int (card L)" by simp
  show "countMatching j (allEntries s) = int (card {l \<in> L. Matches asm l ! j})"
    if j: "j < length asm"
  proof -
    let ?M = "mset (allEntries s)"
    have "filter_mset (\<lambda>e. j < length (matches e) \<and> matches e ! j) ?M =
        filter_mset (\<lambda>e. Matches asm (lbs e) ! j) ?M"
      by (rule filter_mset_cong) (use ent j in \<open>auto simp: Matches_def\<close>)
    then have "countMatching j (allEntries s) =
        int (size (image_mset lbs (filter_mset (\<lambda>e. Matches asm (lbs e) ! j) ?M)))"
      by (simp add: countMatching_mset)
    also have "\<dots> = int (size (filter_mset (\<lambda>l. Matches asm l ! j) (image_mset lbs ?M)))"
      by (simp only: filter_mset_image_mset)
    also have "\<dots> = int (card {l \<in> L. Matches asm l ! j})"
      unfolding lab using fin by simp
    finally show ?thesis .
  qed
qed

lemma purge_keeps_all:
  assumes p: "purge k s = Inr s'" and sI: "seriesIn hash asm tmin L s" and k: "k \<le> tmin"
    and i: "I3 s" "I4 s"
  shows "allEntries s' = allEntries s"
proof -
  from sI k have "\<forall>e \<in> set (allEntries s). k \<le> nanos e" by (fastforce simp: seriesIn_def)
  then have "survivors k (allEntries s) = allEntries s" by (simp add: survivors_def)
  with purge_allEntries [OF p] i show ?thesis by simp
qed

lemma New_series: "trackerSeries hash asm tmin {} (NewActiveSeries asm t)"
  by (simp add: trackerSeries_def New_nth seriesIn_def allEntries_def)
     (simp add: NewActiveSeries_def)

lemma UpdateSeries_series:
  assumes u: "UpdateSeries hash series now lc c = Inr c'" and wf: "tracker_wf c"
    and tS: "trackerSeries hash asm tmin L c"
    and copy: "lc series = series" and tmin: "tmin \<le> now"
  shows "trackerSeries hash asm tmin (insert series L) c'"
proof -
  let ?k = "stripeID (hash series)"
  from u obtain s' where
    s': "updateSeriesTimestamp now series (hash series) lc (stripes c ! ?k) = Inr s'"
    and c': "c' = c\<lparr>stripes := (stripes c)[?k := s']\<rparr>"
    by (rule UpdateSeries_cases)
  from wf have len: "length (stripes c) = numActiveSeriesStripes" by (simp add: tracker_wf_def)
  from tS have m: "matchers c = asm" by (simp add: trackerSeries_def)
  have k: "?k < numActiveSeriesStripes" by (rule stripeID_lt)
  have old: "stripe_wf (stripes c ! ?k)" "smatchers (stripes c ! ?k) = asm"
    using wf stripe_in_tracker [OF len, of "hash series"] m by (simp_all add: tracker_wf_def)
  have "seriesIn hash asm tmin {l \<in> insert series L. stripeID (hash l) = j} (stripes c' ! j)"
    if j: "j < numActiveSeriesStripes" for j
  proof (cases "j = ?k")
    case True
    have "{l \<in> insert series L. stripeID (hash l) = ?k} =
        insert series {l \<in> L. stripeID (hash l) = ?k}" by auto
    moreover have "seriesIn hash asm tmin (insert series {l \<in> L. stripeID (hash l) = ?k}) s'"
      using s' old _ copy tmin by (rule update_seriesIn) (use tS k in \<open>simp add: trackerSeries_def\<close>)
    ultimately show ?thesis using True k len by (simp add: c')
  next
    case False
    then have "{l \<in> insert series L. stripeID (hash l) = j} = {l \<in> L. stripeID (hash l) = j}"
      by auto
    with False tS j show ?thesis by (simp add: c' trackerSeries_def)
  qed
  with m show ?thesis by (simp add: trackerSeries_def c')
qed

lemma runUpdates_series:
  assumes "reachable hash c" "trackerSeries hash asm tmin L c"
    and "\<forall>(series, t) \<in> set calls. lc series = series \<and> tmin \<le> t"
  shows "\<exists>c1. runUpdates hash lc calls c = Inr c1 \<and> reachable hash c1 \<and>
           trackerSeries hash asm tmin (L \<union> fst ` set calls) c1 \<and> timeout c1 = timeout c"
  using assms
proof (induction calls arbitrary: c L)
  case Nil
  then show ?case by simp
next
  case (Cons call calls)
  obtain series t where call: "call = (series, t)" by (cases call)
  from Cons.prems(3) have copy: "lc series = series" and t: "tmin \<le> t"
    and rest: "\<forall>(series, t) \<in> set calls. lc series = series \<and> tmin \<le> t"
    by (simp_all add: call)
  from reachable_inv [OF Cons.prems(1)] have wf: "tracker_wf c" by simp
  from UpdateSeries_ok [OF wf] obtain c' where u: "UpdateSeries hash series t lc c = Inr c'"
    by blast
  have r': "reachable hash c'" using Cons.prems(1) u by (rule reachable.update)
  have s': "trackerSeries hash asm tmin (insert series L) c'"
    using u wf Cons.prems(2) copy t by (rule UpdateSeries_series)
  from Cons.IH [OF r' s' rest] UpdateSeries_fields(4) [OF u] u show ?case
    by (auto simp: call)
qed

lemma sum_list_nth: "(\<Sum>x \<leftarrow> xs. f x) = (\<Sum>k = 0 ..< length xs. f (xs ! k))" for f :: "'a \<Rightarrow> int"
  by (simp add: sum_list_sum_nth)

lemma card_by_stripe:
  assumes "finite L"
  shows "(\<Sum>k = 0 ..< numActiveSeriesStripes. int (card {l \<in> L. stripeID (hash l) = k})) = int (card L)"
proof -
  have "(\<Sum>k \<in> {0 ..< numActiveSeriesStripes}. \<Sum>l \<in> {l \<in> L. stripeID (hash l) = k}. (1::nat)) =
      (\<Sum>l \<in> L. 1)"
    by (rule sum.group) (use assms stripeID_lt in auto)
  then have "(\<Sum>k = 0 ..< numActiveSeriesStripes. card {l \<in> L. stripeID (hash l) = k}) = card L"
    by simp
  then have "int (\<Sum>k = 0 ..< numActiveSeriesStripes. card {l \<in> L. stripeID (hash l) = k}) = int (card L)"
    by (rule arg_cong)
  then show ?thesis by simp
qed

text \<open>\<open>Active\<close> on a tracker that holds the series \<open>L\<close>, none of them older than the cutoff.\<close>

lemma Active_series:
  assumes r: "reachable hash c" and tS: "trackerSeries hash asm (cutoffNanos now (timeout c)) L c"
  shows "\<exists>c' tot tm valid.
           Active now c = Inr (c', tot, tm, valid) \<and>
           tot = int (card L) \<and> len tm = length asm \<and>
           (\<forall>j < length asm. elems tm ! j = int (card {l \<in> L. Matches asm l ! j})) \<and>
           (\<forall>k < numActiveSeriesStripes. allEntries (stripes c' ! k) = allEntries (stripes c ! k))"
proof -
  let ?k = "cutoffNanos now (timeout c)"
  let ?Lk = "\<lambda>k. {l \<in> L. stripeID (hash l) = k}"
  from reachable_inv [OF r] have wf: "tracker_wf c" and i34: "allStripes I3 c" "allStripes I4 c"
    by simp_all
  note wfs = tracker_wf_stripes [OF wf]
  from tS have m: "matchers c = asm" by (simp add: trackerSeries_def)
  from wf have len: "length (stripes c) = numActiveSeriesStripes" by (simp add: tracker_wf_def)
  from Active_ok [OF wfs] obtain c' tot tm valid where
    a: "Active now c = Inr (c', tot, tm, valid)" by blast
  from a obtain ss where p: "purgeAll ?k (stripes c) = Inr ss" and c': "c' = c\<lparr>stripes := ss\<rparr>"
    by (rule Active_cases)
  have r': "reachable hash c'" using r a by (rule reachable.active)
  from reachable_inv [OF r'] have wf': "tracker_wf c'" and i12: "allStripes I1 c'" "allStripes I2 c'"
    by simp_all
  have len': "length ss = numActiveSeriesStripes"
    using purgeAll_length [OF p] len by simp
  have fin: "finite L"
  proof -
    have "L = (\<Union>k \<in> {0 ..< numActiveSeriesStripes}. ?Lk k)"
      using stripeID_lt by auto
    moreover have "finite (?Lk k)" if "k < numActiveSeriesStripes" for k
      using tS that by (simp add: trackerSeries_def seriesIn_def)
    ultimately show ?thesis by (metis (no_types, lifting) atLeastLessThan_iff finite_UN_I finite_atLeastLessThan)
  qed
  have stripe: "active (ss ! k) = int (card (?Lk k)) \<and>
      (\<forall>j < length asm. elems (activeMatching (ss ! k)) ! j =
         int (card {l \<in> ?Lk k. Matches asm l ! j}))"
    if k: "k < numActiveSeriesStripes" for k
  proof -
    let ?s = "stripes c ! k" and ?s' = "ss ! k"
    from k len have mem: "?s \<in> set (stripes c)" by simp
    from k len' have mem': "?s' \<in> set (stripes c')" by (simp add: c')
    have ps: "purge ?k ?s = Inr ?s'" using p k len by (simp add: purgeAll_nth)
    have sI: "seriesIn hash asm ?k (?Lk k) ?s" using tS k by (simp add: trackerSeries_def)
    have same: "allEntries ?s' = allEntries ?s"
      using ps sI _ allStripesD [OF i34(1) mem] allStripesD [OF i34(2) mem]
      by (rule purge_keeps_all) simp
    have "active ?s' = int (length (allEntries ?s'))"
      using allStripesD [OF i12(1) mem'] by (simp add: I1_alt)
    then have act: "active ?s' = int (card (?Lk k))"
      using seriesIn_count(1) [OF sI] by (simp add: same)
    have l: "len (activeMatching ?s') = length asm"
      using wf' mem' m by (simp add: tracker_wf_def stripe_wf_def MatcherNames_def c')
    have "elems (activeMatching ?s') ! j = int (card {l \<in> ?Lk k. Matches asm l ! j})"
      if j: "j < length asm" for j
    proof -
      have "elems (activeMatching ?s') ! j = countMatching j (allEntries ?s')"
        using allStripesD [OF i12(2) mem'] j l by (simp add: I2_def)
      with seriesIn_count(2) [OF sI j] show ?thesis by (simp add: same)
    qed
    with act show ?thesis by simp
  qed
  have "tot = (\<Sum>s \<leftarrow> ss. active s)"
    using Active_result(1) [OF a wfs] by (simp add: c')
  also have "\<dots> = (\<Sum>k = 0 ..< numActiveSeriesStripes. int (card (?Lk k)))"
    by (simp add: sum_list_nth len' stripe)
  also have "\<dots> = int (card L)" using fin by (rule card_by_stripe)
  finally have tot: "tot = int (card L)" .
  have tm: "elems tm ! j = int (card {l \<in> L. Matches asm l ! j})" if j: "j < length asm" for j
  proof -
    let ?Q = "{l \<in> L. Matches asm l ! j}"
    have "elems tm ! j = (\<Sum>s \<leftarrow> ss. elems (activeMatching s) ! j)"
      using Active_result(4) [OF a wfs, of j] j m by (simp add: c')
    also have "\<dots> = (\<Sum>k = 0 ..< numActiveSeriesStripes. int (card {l \<in> ?Lk k. Matches asm l ! j}))"
      using j by (simp add: sum_list_nth len' stripe)
    also have "\<dots> = (\<Sum>k = 0 ..< numActiveSeriesStripes. int (card {l \<in> ?Q. stripeID (hash l) = k}))"
      by (rule sum.cong) (auto intro!: arg_cong [where f = card] arg_cong [where f = int])
    also have "\<dots> = int (card ?Q)" by (rule card_by_stripe) (use fin in simp)
    finally show ?thesis .
  qed
  have keep: "allEntries (stripes c' ! k) = allEntries (stripes c ! k)"
    if k: "k < numActiveSeriesStripes" for k
  proof -
    from k len have mem: "stripes c ! k \<in> set (stripes c)" by simp
    have ps: "purge ?k (stripes c ! k) = Inr (ss ! k)" using p k len by (simp add: purgeAll_nth)
    have sI: "seriesIn hash asm ?k (?Lk k) (stripes c ! k)"
      using tS k by (simp add: trackerSeries_def)
    have "allEntries (ss ! k) = allEntries (stripes c ! k)"
      using ps sI _ allStripesD [OF i34(1) mem] allStripesD [OF i34(2) mem]
      by (rule purge_keeps_all) simp
    then show ?thesis by (simp add: c')
  qed
  from Active_result(2) [OF a wfs] m have "len tm = length asm" by simp
  with a tot tm keep show ?thesis by blast
qed

text \<open>No timestamp above a bound, as long as no call comes with one.\<close>

lemma update_nanos_bound:
  assumes u: "updateSeriesTimestamp now series fp lc s = Inr s'"
    and b: "\<forall>e \<in> set (allEntries s). nanos e \<le> B" and n: "now \<le> B"
  shows "\<forall>e \<in> set (allEntries s'). nanos e \<le> B"
proof -
  have "\<forall>e \<in> set (allEntries s'). e \<in> set (allEntries s) \<or> nanos e = now"
    using u
  proof (cases rule: update_cases)
    case (same i)
    then show ?thesis by simp
  next
    case (advance i)
    let ?c = "chainOf fp s"
    let ?v = "?c[i := (?c ! i)\<lparr>nanos := now\<rparr>]"
    have r: "refs s' = AList.update fp ?v (refs s)" by (simp add: advance(3))
    have "set ?v \<subseteq> insert ((?c ! i)\<lparr>nanos := now\<rparr>) (set ?c)"
      by (rule set_update_subset_insert)
    with entries_update_set [OF r] chainOf_subset [of fp s] show ?thesis by auto
  next
    case (insert am)
    let ?e = "\<lparr>lbs = lc series, nanos = now, matches = Matches (smatchers s) series\<rparr>"
    have r: "refs s' = AList.update fp (chainOf fp s @ [?e]) (refs s)" by (simp add: insert(3))
    from entries_update_set [OF r] chainOf_subset [of fp s] show ?thesis by auto
  qed
  with b n show ?thesis by auto
qed

lemma runUpdates_nanos_bound:
  assumes "reachable hash c" "runUpdates hash lc calls c = Inr c1"
    and "allStripes (\<lambda>s. \<forall>e \<in> set (allEntries s). nanos e \<le> B) c"
    and "\<forall>(series, t) \<in> set calls. t \<le> B"
  shows "allStripes (\<lambda>s. \<forall>e \<in> set (allEntries s). nanos e \<le> B) c1 \<and> timeout c1 = timeout c"
  using assms
proof (induction calls arbitrary: c)
  case Nil
  then show ?case by simp
next
  case (Cons call calls)
  obtain series t where call: "call = (series, t)" by (cases call)
  from Cons.prems(2) obtain c' where u: "UpdateSeries hash series t lc c = Inr c'"
    and run: "runUpdates hash lc calls c' = Inr c1"
    by (auto simp: call split: sum.splits)
  from Cons.prems(4) have t: "t \<le> B" and rest: "\<forall>(series, t) \<in> set calls. t \<le> B"
    by (simp_all add: call)
  from reachable_inv [OF Cons.prems(1)] have len: "length (stripes c) = numActiveSeriesStripes"
    by (simp add: tracker_wf_def)
  have r': "reachable hash c'" using Cons.prems(1) u by (rule reachable.update)
  have "\<forall>s \<in> set (stripes c'). \<forall>e \<in> set (allEntries s). nanos e \<le> B"
    using u
  proof (rule UpdateSeries_stripes)
    show "\<forall>s \<in> set (stripes c). \<forall>e \<in> set (allEntries s). nanos e \<le> B"
      using Cons.prems(3) by (simp add: allStripes_def)
    show "length (stripes c) = numActiveSeriesStripes" by (rule len)
  next
    fix s s'
    assume "updateSeriesTimestamp t series (hash series) lc s = Inr s'"
      "\<forall>e \<in> set (allEntries s). nanos e \<le> B"
    then show "\<forall>e \<in> set (allEntries s'). nanos e \<le> B" using t by (rule update_nanos_bound)
  qed
  then have b': "allStripes (\<lambda>s. \<forall>e \<in> set (allEntries s). nanos e \<le> B) c'"
    by (simp add: allStripes_def)
  from Cons.IH [OF r' run b' rest] UpdateSeries_fields(4) [OF u] show ?case by simp
qed

text \<open>\<open>Active\<close> on a tracker whose timestamps are all before the cutoff returns the total 0.\<close>

lemma Active_expires:
  assumes r: "reachable hash c"
    and old: "allStripes (\<lambda>s. \<forall>e \<in> set (allEntries s). nanos e < cutoffNanos now (timeout c)) c"
  shows "\<exists>c' tm valid. Active now c = Inr (c', 0, tm, valid)"
proof -
  let ?k = "cutoffNanos now (timeout c)"
  from reachable_inv [OF r] have wf: "tracker_wf c" and i34: "allStripes I3 c" "allStripes I4 c"
    by simp_all
  note wfs = tracker_wf_stripes [OF wf]
  from Active_ok [OF wfs] obtain c' tot tm valid where
    a: "Active now c = Inr (c', tot, tm, valid)" by blast
  from a obtain ss where p: "purgeAll ?k (stripes c) = Inr ss" and c': "c' = c\<lparr>stripes := ss\<rparr>"
    by (rule Active_cases)
  have r': "reachable hash c'" using r a by (rule reachable.active)
  from reachable_inv [OF r'] have i1: "allStripes I1 c'" by simp
  have "active s' = 0" if "s' \<in> set (stripes c')" for s'
  proof -
    from that purgeAll_set [OF p] obtain s where s: "s \<in> set (stripes c)" "purge ?k s = Inr s'"
      by (auto simp: c')
    from allStripesD [OF old s(1)] have "survivors ?k (allEntries s) = []"
      by (auto simp: survivors_def filter_empty_conv)
    with purge_allEntries [OF s(2)] allStripesD [OF i34(1) s(1)] allStripesD [OF i34(2) s(1)]
    have "allEntries s' = []" by simp
    with allStripesD [OF i1 that] show ?thesis by (simp add: I1_alt)
  qed
  then have "tot = 0"
    unfolding Active_result(1) [OF a wfs] by (intro sum_list_zero)
  with a show ?thesis by blast
qed

lemma runUpdates_reachable:
  "reachable hash c \<Longrightarrow> runUpdates hash lc calls c = Inr c1 \<Longrightarrow> reachable hash c1"
proof (induction calls arbitrary: c)
  case Nil
  then show ?case by simp
next
  case (Cons call calls)
  obtain series t where call: "call = (series, t)" by (cases call)
  from Cons.prems(2) obtain c' where u: "UpdateSeries hash series t lc c = Inr c'"
    and run: "runUpdates hash lc calls c' = Inr c1"
    by (auto simp: call split: sum.splits)
  from Cons.prems(1) u have "reachable hash c'" by (rule reachable.update)
  then show ?case using run by (rule Cons.IH)
qed

text \<open>
  Claim C1, as stated, fails where \<open>now - timeout\<close> leaves the range of \<^verbatim>\<open>int64\<close>: purge
  compares the timestamps with \<^verbatim>\<open>keepUntil.UnixNano()\<close>, which wraps. With the clock at
  \<open>-2\<close> and the timeout \<^verbatim>\<open>math.MaxInt64\<close>, \<open>now - timeout\<close> is below the timestamp 0 of
  the one series, yet the cutoff purge uses is \<^verbatim>\<open>math.MaxInt64\<close> and the total is 0, not 1.
\<close>

theorem Active_counts_series_overflow:
  "(- 2) - MaxInt64 \<le> (0::int) \<and>
   card (fst ` set [([(''job'', ''a'')], 0::int)]) = 1 \<and>
   cutoffNanos (- 2) MaxInt64 = MaxInt64 \<and>
   totalOf (activeAfter exHash id [([(''job'', ''a'')], 0)] exMatchers MaxInt64 (- 2)) = Inr 0 \<and>
   totalOf (activeAfter exHash id [([(''job'', ''a'')], 0)] exMatchers MaxInt64 (- 2)) \<noteq>
     Inr (int (card (fst ` set [([(''job'', ''a'')], 0::int)])))"
proof -
  let ?c0 = "NewActiveSeries exMatchers MaxInt64"
  let ?calls = "[([(''job'', ''a'')], 0)] :: (Labels \<times> int) list"
  have k: "cutoffNanos (- 2) MaxInt64 = MaxInt64"
    by (simp add: cutoffNanos_def UnixNano_def negDuration_def wrap64_def MaxInt64_def)
  have r0: "reachable exHash ?c0" by (rule reachable.new)
  from UpdateSeries_ok [OF New_wf] obtain c1 where
    u: "UpdateSeries exHash [(''job'', ''a'')] 0 id ?c0 = Inr c1" by blast
  then have run: "runUpdates exHash id ?calls ?c0 = Inr c1" by simp
  have r1: "reachable exHash c1" using r0 run by (rule runUpdates_reachable)
  have b0: "allStripes (\<lambda>s. \<forall>e \<in> set (allEntries s). nanos e \<le> 0) ?c0"
    by (auto intro!: allStripesI dest!: New_stripes simp: allEntries_def)
  from runUpdates_nanos_bound [OF r0 run b0]
  have b1: "allStripes (\<lambda>s. \<forall>e \<in> set (allEntries s). nanos e \<le> 0) c1"
    and t1: "timeout c1 = MaxInt64"
    by (simp_all add: NewActiveSeries_def)
  have "allStripes (\<lambda>s. \<forall>e \<in> set (allEntries s). nanos e < cutoffNanos (- 2) (timeout c1)) c1"
    unfolding t1 k using b1 by (fastforce simp: allStripes_def MaxInt64_def)
  from Active_expires [OF r1 this] obtain c2 tm valid where
    "Active (- 2) c1 = Inr (c2, 0, tm, valid)" by blast
  with run have "totalOf (activeAfter exHash id ?calls exMatchers MaxInt64 (- 2)) = Inr 0"
    by (simp add: activeAfter_def totalOf_def)
  with k show ?thesis by (simp add: MaxInt64_def)
qed

text \<open>
  Claim C1, amended. Take any sequence of \<open>UpdateSeries\<close> calls on a new tracker, with \<open>N\<close>
  distinct label sets among them, and then \<open>Active\<close> whose purge cutoff, the \<^verbatim>\<open>int64\<close> that
  \<^verbatim>\<open>UnixNano()\<close> gives for \<^verbatim>\<open>now.Add(-timeout)\<close>, is at or before every timestamp used.
  All calls return; the total is \<open>N\<close>; the vector has one cell per matcher, and cell \<open>i\<close>
  is the number of those label sets that matcher \<open>i\<close> matches. That cutoff is
  \<open>now - timeout\<close> whenever \<open>now - timeout\<close> is in the range of \<^verbatim>\<open>int64\<close> and the timeout
  is not \<^verbatim>\<open>math.MinInt64\<close>. Moreover, on every tracker, the total \<open>Active\<close> returns is the
  sum of the \<open>active\<close> counters of the 512 stripes it leaves.
\<close>

theorem Active_counts_series:
  assumes "\<forall>(series, t) \<in> set calls. labelsCopy series = series"
    and "\<forall>(series, t) \<in> set calls. cutoffNanos now idleTimeout \<le> t"
  shows "(\<exists>c1 c2 tot totalMatching valid.
            runUpdates hash labelsCopy calls (NewActiveSeries asm idleTimeout) = Inr c1 \<and>
            Active now c1 = Inr (c2, tot, totalMatching, valid) \<and>
            tot = int (card (fst ` set calls)) \<and>
            len totalMatching = length (MatcherNames asm) \<and>
            (\<forall>i < length (MatcherNames asm).
               elems totalMatching ! i = int (card {l \<in> fst ` set calls. Matches asm l ! i}))) \<and>
         (MinInt64 < idleTimeout \<and> idleTimeout \<le> MaxInt64 \<and>
          MinInt64 \<le> now - idleTimeout \<and> now - idleTimeout \<le> MaxInt64 \<longrightarrow>
            cutoffNanos now idleTimeout = now - idleTimeout) \<and>
         (\<forall>c c' tot totalMatching valid.
            tracker_wf c \<and> Active now c = Inr (c', tot, totalMatching, valid) \<longrightarrow>
            tot = (\<Sum>s \<leftarrow> stripes c'. active s) \<and> length (stripes c') = 512)"
proof -
  let ?c0 = "NewActiveSeries asm idleTimeout"
  let ?k = "cutoffNanos now idleTimeout"
  have r0: "reachable hash ?c0" by (rule reachable.new)
  have s0: "trackerSeries hash asm ?k {} ?c0" by (rule New_series)
  have calls: "\<forall>(series, t) \<in> set calls. labelsCopy series = series \<and> ?k \<le> t"
    using assms by auto
  from runUpdates_series [OF r0 s0 calls] obtain c1 where
    run: "runUpdates hash labelsCopy calls ?c0 = Inr c1" and r1: "reachable hash c1" and
    s1: "trackerSeries hash asm ?k (fst ` set calls) c1" and
    t1: "timeout c1 = idleTimeout"
    by (auto simp: NewActiveSeries_def)
  from s1 t1 have "trackerSeries hash asm (cutoffNanos now (timeout c1)) (fst ` set calls) c1"
    by simp
  from Active_series [OF r1 this] obtain c2 tot tm valid where
    a: "Active now c1 = Inr (c2, tot, tm, valid)" and
    tot: "tot = int (card (fst ` set calls))" and l: "len tm = length asm" and
    v: "\<forall>j < length asm. elems tm ! j = int (card {l \<in> fst ` set calls. Matches asm l ! j})"
    by blast
  have first: "\<exists>c1 c2 tot totalMatching valid.
            runUpdates hash labelsCopy calls ?c0 = Inr c1 \<and>
            Active now c1 = Inr (c2, tot, totalMatching, valid) \<and>
            tot = int (card (fst ` set calls)) \<and>
            len totalMatching = length (MatcherNames asm) \<and>
            (\<forall>i < length (MatcherNames asm).
               elems totalMatching ! i = int (card {l \<in> fst ` set calls. Matches asm l ! i}))"
    apply (rule exI [of _ c1], rule exI [of _ c2], rule exI [of _ tot], rule exI [of _ tm],
        rule exI [of _ valid])
    using run a tot l v by (simp add: MatcherNames_def)
  have range: "?k = now - idleTimeout"
    if "MinInt64 < idleTimeout \<and> idleTimeout \<le> MaxInt64 \<and>
        MinInt64 \<le> now - idleTimeout \<and> now - idleTimeout \<le> MaxInt64"
    using that by (simp add: cutoffNanos_id)
  have second: "tot = (\<Sum>s \<leftarrow> stripes c'. active s) \<and> length (stripes c') = 512"
    if "tracker_wf c \<and> Active now c = Inr (c', tot, tm, valid)" for c c' tot tm valid
  proof -
    from that have wf: "tracker_wf c" and a: "Active now c = Inr (c', tot, tm, valid)" by simp_all
    from Active_wf [OF a wf] have "length (stripes c') = 512"
      by (simp add: tracker_wf_def numActiveSeriesStripes_def)
    with Active_result(1) [OF a tracker_wf_stripes [OF wf]] show ?thesis by simp
  qed
  from first range second show ?thesis by blast
qed

theorem Active_counts_series_witness:
  "cutoffNanos 110 10 = 100 \<and>
   (\<exists>c1 c2 totalMatching valid.
     runUpdates exHash (\<lambda>l. l)
       [([(''job'', ''a'')], 100), ([(''job'', ''b'')], 101), ([(''job'', ''a'')], 120),
        ([(''job'', ''c''), (''zone'', ''z'')], 105)]
       (NewActiveSeries exMatchers2 10) = Inr c1 \<and>
     Active 110 c1 = Inr (c2, 3, totalMatching, valid) \<and>
     len totalMatching = 2 \<and> elems totalMatching ! 0 = 1 \<and> elems totalMatching ! 1 = 3 \<and>
     (\<Sum>s \<leftarrow> stripes c2. active s) = 3 \<and> length (stripes c2) = 512)"
proof -
  let ?calls = "([([(''job'', ''a'')], 100), ([(''job'', ''b'')], 101), ([(''job'', ''a'')], 120),
        ([(''job'', ''c''), (''zone'', ''z'')], 105)] :: (Labels \<times> int) list)"
  let ?c0 = "NewActiveSeries exMatchers2 10"
  have rng: "MinInt64 < (10::int) \<and> (10::int) \<le> MaxInt64 \<and>
      MinInt64 \<le> (110::int) - 10 \<and> (110::int) - 10 \<le> MaxInt64"
    by (simp add: MinInt64_def MaxInt64_def)
  have h1: "\<forall>(series, t) \<in> set ?calls. (\<lambda>l. l) series = series" by simp
  have k0: "cutoffNanos 110 10 = 100"
    by (simp add: cutoffNanos_def UnixNano_def negDuration_def wrap64_def)
  have h2: "\<forall>(series, t) \<in> set ?calls. cutoffNanos 110 10 \<le> t" unfolding k0 by simp
  note inst = Active_counts_series [where hash = exHash and asm = exMatchers2, OF h1 h2]
  from inst [THEN conjunct2, THEN conjunct1] rng have k: "cutoffNanos 110 10 = 110 - 10" by blast
  have L: "fst ` set ?calls =
      {[(''job'', ''a'')], [(''job'', ''b'')], [(''job'', ''c''), (''zone'', ''z'')]}"
    by auto
  have n: "card (fst ` set ?calls) = 3" unfolding L by simp
  have m0: "{l \<in> fst ` set ?calls. Matches exMatchers2 l ! 0} = {[(''job'', ''b'')]}"
    unfolding L by (auto simp: Matches_def exMatchers2_def)
  have m1: "{l \<in> fst ` set ?calls. Matches exMatchers2 l ! 1} = fst ` set ?calls"
    by (auto simp: Matches_def exMatchers2_def)
  have len: "length (MatcherNames exMatchers2) = 2"
    by (simp add: MatcherNames_def exMatchers2_def)
  from inst [THEN conjunct1] obtain c1 c2 tot tm valid where
    run: "runUpdates exHash (\<lambda>l. l) ?calls ?c0 = Inr c1" and
    a: "Active 110 c1 = Inr (c2, tot, tm, valid)" and
    tot: "tot = int (card (fst ` set ?calls))" and
    l: "len tm = length (MatcherNames exMatchers2)" and
    v: "\<forall>i < length (MatcherNames exMatchers2).
         elems tm ! i = int (card {l \<in> fst ` set ?calls. Matches exMatchers2 l ! i})"
    by (elim exE conjE) (rule that, assumption+)
  have "reachable exHash c1" using reachable.new run by (rule runUpdates_reachable)
  then have wf: "tracker_wf c1" using reachable_inv by blast
  from inst [THEN conjunct2, THEN conjunct2, rule_format, of c1 c2 tot tm valid] wf a
  have s: "tot = (\<Sum>s \<leftarrow> stripes c2. active s)" "length (stripes c2) = 512" by simp_all
  have t3: "tot = 3" using tot n by simp
  from v len have "elems tm ! 0 = int (card {l \<in> fst ` set ?calls. Matches exMatchers2 l ! 0})"
    "elems tm ! 1 = int (card {l \<in> fst ` set ?calls. Matches exMatchers2 l ! 1})"
    by simp_all
  then have e: "elems tm ! 0 = 1" "elems tm ! 1 = 3"
    unfolding m0 m1 n by simp_all
  from k run a t3 l len e s show ?thesis by auto
qed

text \<open>
  The counters at work: two series that share a fingerprint, and an \<open>Active\<close> that keeps
  both. The stripe of that fingerprint then holds a chain of two entries, \<open>active = 2\<close> and
  one entry counted for the matcher.
\<close>

theorem counters_hold_witness:
  "\<exists>c1 c2 c3 totalMatching valid.
     UpdateSeries exHash [(''job'', ''a'')] 100 (\<lambda>l. l) (NewActiveSeries exMatchers 10) = Inr c1 \<and>
     UpdateSeries exHash [(''job'', ''b'')] 101 (\<lambda>l. l) c1 = Inr c2 \<and>
     Active 110 c2 = Inr (c3, 2, totalMatching, valid) \<and>
     elems totalMatching ! 0 = 1 \<and>
     reachable exHash c3 \<and> tracker_wf c3 \<and> allStripes I1 c3 \<and> allStripes I2 c3 \<and>
     length (allEntries (stripes c3 ! 1)) = 2 \<and>
     active (stripes c3 ! 1) = 2 \<and>
     countMatching 0 (allEntries (stripes c3 ! 1)) = 1 \<and>
     elems (activeMatching (stripes c3 ! 1)) ! 0 = 1"
proof -
  let ?c0 = "NewActiveSeries exMatchers 10"
  let ?a = "[(''job'', ''a'')]" and ?b = "[(''job'', ''b'')]"
  let ?L = "{?b, ?a} :: Labels set"
  have k0: "cutoffNanos 110 10 = 100"
    by (simp add: cutoffNanos_def UnixNano_def negDuration_def wrap64_def)
  have r0: "reachable exHash ?c0" by (rule reachable.new)
  have s0: "trackerSeries exHash exMatchers 100 {} ?c0" by (rule New_series)
  from counters_hold [OF r0] obtain c1 where
    u1: "UpdateSeries exHash ?a 100 (\<lambda>l. l) ?c0 = Inr c1" by blast
  have r1: "reachable exHash c1" using r0 u1 by (rule reachable.update)
  have s1: "trackerSeries exHash exMatchers 100 {?a} c1"
    using u1 New_wf s0 by (rule UpdateSeries_series) simp_all
  from counters_hold [OF r1] have wf1: "tracker_wf c1" and
    "\<exists>c'. UpdateSeries exHash ?b 101 (\<lambda>l. l) c1 = Inr c'" by blast+
  then obtain c2 where u2: "UpdateSeries exHash ?b 101 (\<lambda>l. l) c1 = Inr c2" by blast
  have r2: "reachable exHash c2" using r1 u2 by (rule reachable.update)
  have s2: "trackerSeries exHash exMatchers 100 ?L c2"
    using u2 wf1 s1 by (rule UpdateSeries_series) simp_all
  have t2: "timeout c2 = 10"
    using UpdateSeries_fields(4) [OF u2] UpdateSeries_fields(4) [OF u1]
    by (simp add: NewActiveSeries_def)
  from s2 have s2': "trackerSeries exHash exMatchers (cutoffNanos 110 (timeout c2)) ?L c2"
    by (simp add: t2 k0)
  from Active_series [OF r2 s2'] obtain c3 tot tm valid where
    a: "Active 110 c2 = Inr (c3, tot, tm, valid)" and
    tot: "tot = int (card ?L)" and
    v: "\<forall>j < length exMatchers. elems tm ! j = int (card {l \<in> ?L. Matches exMatchers l ! j})" and
    keep: "\<forall>k < numActiveSeriesStripes. allEntries (stripes c3 ! k) = allEntries (stripes c2 ! k)"
    by blast
  have r3: "reachable exHash c3" using r2 a by (rule reachable.active)
  from counters_hold [OF r3] have wf3: "tracker_wf c3" and
    i1: "allStripes I1 c3" and i2: "allStripes I2 c3" by blast+
  have one: "(1::nat) < numActiveSeriesStripes" by (simp add: numActiveSeriesStripes_def)
  have L1: "{l \<in> ?L. stripeID (exHash l) = 1} = ?L"
    by (auto simp: exHash_def stripeID_def)
  have m: "{l \<in> ?L. Matches exMatchers l ! 0} = {?a}"
    by (auto simp: Matches_def exMatchers_def)
  from s2 one
  have "seriesIn exHash exMatchers 100 {l \<in> ?L. stripeID (exHash l) = 1} (stripes c2 ! 1)"
    unfolding trackerSeries_def by blast
  then have sI: "seriesIn exHash exMatchers 100 ?L (stripes c2 ! 1)"
    by (simp only: L1)
  from keep one have same: "allEntries (stripes c3 ! 1) = allEntries (stripes c2 ! 1)" by blast
  have n: "length (allEntries (stripes c3 ! 1)) = 2"
    unfolding same using seriesIn_count(1) [OF sI] by simp
  have "countMatching 0 (allEntries (stripes c2 ! 1)) =
      int (card {l \<in> ?L. Matches exMatchers l ! 0})"
    by (rule seriesIn_count(2) [OF sI]) (simp add: exMatchers_def)
  then have cm: "countMatching 0 (allEntries (stripes c3 ! 1)) = 1"
    unfolding same m by simp
  from wf3 one have mem: "stripes c3 ! 1 \<in> set (stripes c3)" by (simp add: tracker_wf_def)
  have act: "active (stripes c3 ! 1) = 2"
    using allStripesD [OF i1 mem] n by (simp add: I1_alt)
  from a obtain ss where "c3 = c2\<lparr>stripes := ss\<rparr>" by (rule Active_cases)
  then have "matchers c3 = matchers c2" by simp
  moreover from s2 have "matchers c2 = exMatchers" by (simp add: trackerSeries_def)
  ultimately have m3: "matchers c3 = exMatchers" by simp
  from tracker_wf_stripes [OF wf3] mem
  have "stripe_wf (stripes c3 ! 1)" "smatchers (stripes c3 ! 1) = matchers c3" by blast+
  then have "len (activeMatching (stripes c3 ! 1)) = length (MatcherNames exMatchers)"
    unfolding m3 by (simp add: stripe_wf_def)
  then have l3: "0 < len (activeMatching (stripes c3 ! 1))"
    by (simp add: MatcherNames_def exMatchers_def)
  from allStripesD [OF i2 mem]
  have "\<forall>i < len (activeMatching (stripes c3 ! 1)).
      elems (activeMatching (stripes c3 ! 1)) ! i = countMatching i (allEntries (stripes c3 ! 1))"
    unfolding I2_def .
  with l3 have "elems (activeMatching (stripes c3 ! 1)) ! 0 =
      countMatching 0 (allEntries (stripes c3 ! 1))" by blast
  with cm have el: "elems (activeMatching (stripes c3 ! 1)) ! 0 = 1" by simp
  have t: "tot = 2" using tot by simp
  have "(0::nat) < length exMatchers" by (simp add: exMatchers_def)
  with v have "elems tm ! 0 = int (card {l \<in> ?L. Matches exMatchers l ! 0})" by blast
  then have e0: "elems tm ! 0 = 1" unfolding m by simp
  show ?thesis
    apply (rule exI [of _ c1], rule exI [of _ c2], rule exI [of _ c3], rule exI [of _ tm],
        rule exI [of _ valid])
    using u1 u2 a t e0 r3 wf3 i1 i2 n act cm el by simp
qed

subsection \<open>The operations on an example stripe\<close>

text \<open>
  The stripe operations, run on the example stripe: a purge that filters a collision chain
  and drops a key, an update that advances a timestamp, and an insertion into a chain.
\<close>

lemma purge_example:
  "purge 100 exStripe =
     Inr \<lparr>smatchers = exMatchers, oldestEntryTs = 100,
          refs = [(1, [exEntry ''a'' 100]), (2, [exEntry ''c'' 100])],
          active = 2, activeMatching = \<lparr>arr = [1, 0], len = 1\<rparr>\<rparr>"
  by (simp add: purge_def exStripe_def exEntry_def purgeEntries_def filterLoop.simps
      resizeAndClear_def cap_def clearLoop.simps MaxInt64_def)

lemma update_example:
  "updateSeriesTimestamp 120 [(''job'', ''d'')] 2 (\<lambda>l. l) exStripe =
     Inr \<lparr>smatchers = exMatchers, oldestEntryTs = 0,
          refs = [(1, [exEntry ''a'' 100]),
                  (2, [exEntry ''b'' 50, exEntry ''c'' 100, exEntry ''d'' 120]),
                  (3, [exEntry ''e'' 99])],
          active = 5, activeMatching = \<lparr>arr = [1, 0], len = 1\<rparr>\<rparr>"
  by (simp add: updateSeriesTimestamp_def findEntryForSeries_def chainOf_def exStripe_def
      exEntry_def storeNanos_def)

lemma insert_example:
  "updateSeriesTimestamp 120 [(''job'', ''a''), (''zone'', ''z'')] 2 (\<lambda>l. l) exStripe =
     Inr \<lparr>smatchers = exMatchers, oldestEntryTs = 0,
          refs = [(1, [exEntry ''a'' 100]),
                  (2, [exEntry ''b'' 50, exEntry ''c'' 100, exEntry ''d'' 99,
                       \<lparr>lbs = [(''job'', ''a''), (''zone'', ''z'')], nanos = 120, matches = [False]\<rparr>]),
                  (3, [exEntry ''e'' 99])],
          active = 6, activeMatching = \<lparr>arr = [1, 0], len = 1\<rparr>\<rparr>"
  by (simp add: updateSeriesTimestamp_def findEntryForSeries_def chainOf_def exStripe_def
      exEntry_def findOrCreateEntryForSeries_def Matches_def exMatchers_def Let_def)

end
